theory Spec2Isabelle
  imports Main
begin

section \<open>Left-leaning red-black trees of algorithms-ts\<close>

text \<open>
  The sorted set (\<^verbatim>\<open>sorted-set/node.ts\<close>, \<^verbatim>\<open>BST.ts\<close>, \<^verbatim>\<open>redBlackBST.ts\<close> and the
  \<^verbatim>\<open>SortedSet\<close> class) and the sorted map are embedded function by function.

  \<^item> \<^verbatim>\<open>Node<T> | null\<close> is a datatype with a constructor for \<^verbatim>\<open>null\<close>. The source
    mutates nodes in place and returns the new local root; no node is ever shared by
    two parents, so each function is modelled as returning the updated subtree.
  \<^item> Every \<^verbatim>\<open>ok(...)\<close> of \<^verbatim>\<open>node:assert/strict\<close> is a branch returning
    \<open>AssertionError\<close>, every field access on \<^verbatim>\<open>null\<close> a branch returning \<open>TypeError\<close>,
    every \<^verbatim>\<open>throw new NoSuchElementError(msg)\<close> a branch returning
    \<open>NoSuchElementError msg\<close> (the message tells an empty container from a missing bound).
  \<^item> The comparator is a parameter \<open>'a \<Rightarrow> 'a \<Rightarrow> int\<close>; the source only looks at the
    sign of its result. Sizes are natural numbers.
\<close>

datatype error = NoSuchElementError string | AssertionError | TypeError

subsection \<open>sorted-set/node.ts\<close>

abbreviation (input) RED :: bool where "RED \<equiv> True"
abbreviation (input) BLACK :: bool where "BLACK \<equiv> False"

datatype 'a node =
  Null
  | Node (val: 'a) (left: "'a node") (right: "'a node") (color: bool) (sz: nat)

fun size_of :: "'a node \<Rightarrow> nat" where
  "size_of Null = 0"
| "size_of (Node v l r c s) = s"

fun isRed :: "'a node \<Rightarrow> bool" where
  "isRed Null = False"
| "isRed (Node v l r c s) = (c = RED)"

subsection \<open>sorted-set/BST.ts\<close>

fun has :: "('a \<Rightarrow> 'a \<Rightarrow> int) \<Rightarrow> 'a node \<Rightarrow> 'a \<Rightarrow> bool" where
  "has compareFn Null x = False"
| "has compareFn (Node v l r c s) x =
     (if compareFn x v < 0 then has compareFn l x
      else if compareFn x v > 0 then has compareFn r x
      else True)"

fun min_node :: "'a node \<Rightarrow> error + 'a node" where
  "min_node Null = Inl TypeError"
| "min_node (Node v l r c s) = (if l = Null then Inr (Node v l r c s) else min_node l)"

fun max_node :: "'a node \<Rightarrow> error + 'a node" where
  "max_node Null = Inl TypeError"
| "max_node (Node v l r c s) = (if r = Null then Inr (Node v l r c s) else max_node r)"

fun floor_node :: "('a \<Rightarrow> 'a \<Rightarrow> int) \<Rightarrow> 'a node \<Rightarrow> 'a \<Rightarrow> 'a node" where
  "floor_node compareFn Null x = Null"
| "floor_node compareFn (Node v l r c s) x =
     (if compareFn x v = 0 then Node v l r c s
      else if compareFn x v < 0 then floor_node compareFn l x
      else (case floor_node compareFn r x of Null \<Rightarrow> Node v l r c s | Node v' l' r' c' s' \<Rightarrow> Node v' l' r' c' s'))"

fun ceiling_node :: "('a \<Rightarrow> 'a \<Rightarrow> int) \<Rightarrow> 'a node \<Rightarrow> 'a \<Rightarrow> 'a node" where
  "ceiling_node compareFn Null x = Null"
| "ceiling_node compareFn (Node v l r c s) x =
     (if compareFn x v = 0 then Node v l r c s
      else if compareFn x v > 0 then ceiling_node compareFn r x
      else (case ceiling_node compareFn l x of Null \<Rightarrow> Node v l r c s | Node v' l' r' c' s' \<Rightarrow> Node v' l' r' c' s'))"

text \<open>\<^verbatim>\<open>dfs\<close> pushes onto the array \<^verbatim>\<open>snapshot\<close> of the enclosing call; the array is the
  accumulator that is passed through.\<close>

fun dfs :: "'a node \<Rightarrow> 'a list \<Rightarrow> 'a list" where
  "dfs Null snapshot = snapshot"
| "dfs (Node v l r c s) snapshot = dfs r (dfs l snapshot @ [v])"

definition createSnapshot :: "'a node \<Rightarrow> 'a list" where
  "createSnapshot root = (if root = Null then [] else dfs root [])"

subsection \<open>sorted-set/redBlackBST.ts\<close>

fun rotateLeft :: "'a node \<Rightarrow> error + 'a node" where
  "rotateLeft Null = Inl TypeError"
| "rotateLeft (Node v l Null c s) = Inl AssertionError"
| "rotateLeft (Node v l (Node rv rl rr rc rs) c s) =
     (if \<not> isRed (Node rv rl rr rc rs) then Inl AssertionError
      else Inr (Node rv (Node v l rl RED (size_of l + size_of rl + 1)) rr c s))"

fun rotateRight :: "'a node \<Rightarrow> error + 'a node" where
  "rotateRight Null = Inl TypeError"
| "rotateRight (Node v Null r c s) = Inl AssertionError"
| "rotateRight (Node v (Node lv ll lr lc ls) r c s) =
     (if \<not> isRed (Node lv ll lr lc ls) then Inl AssertionError
      else Inr (Node lv ll (Node v lr r RED (size_of lr + size_of r + 1)) c s))"

fun flipColors :: "'a node \<Rightarrow> error + 'a node" where
  "flipColors Null = Inl TypeError"
| "flipColors (Node v Null r c s) = Inl AssertionError"
| "flipColors (Node v (Node lv ll lr lc ls) Null c s) = Inl AssertionError"
| "flipColors (Node v (Node lv ll lr lc ls) (Node rv rl rr rc rs) c s) =
     (if isRed (Node lv ll lr lc ls) \<noteq> isRed (Node rv rl rr rc rs) then Inl AssertionError
      else if isRed (Node v (Node lv ll lr lc ls) (Node rv rl rr rc rs) c s) = isRed (Node lv ll lr lc ls)
        then Inl AssertionError
      else Inr (Node v (Node lv ll lr (\<not> lc) ls) (Node rv rl rr (\<not> rc) rs) (\<not> c) s))"

text \<open>\<^verbatim>\<open>moveRedLeft\<close>: three assertions, then \<^verbatim>\<open>flipColors(node)\<close>, then the double
  rotation when \<^verbatim>\<open>node.right.left\<close> is red.\<close>

fun moveRedLeft :: "'a node \<Rightarrow> error + 'a node" where
  "moveRedLeft Null = Inl AssertionError"
| "moveRedLeft (Node v l r c s) =
     (if \<not> isRed (Node v l r c s) then Inl AssertionError
      else if l = Null \<or> isRed l \<or> isRed (left l) then Inl AssertionError
      else if r = Null then Inl AssertionError
      else (case flipColors (Node v l r c s) of
              Inl e \<Rightarrow> Inl e
            | Inr Null \<Rightarrow> Inl TypeError
            | Inr (Node v1 l1 Null c1 s1) \<Rightarrow> Inl TypeError
            | Inr (Node v1 l1 (Node rv rl rr rc rs) c1 s1) \<Rightarrow>
                if isRed rl then
                  (case rotateRight (Node rv rl rr rc rs) of
                     Inl e \<Rightarrow> Inl e
                   | Inr r' \<Rightarrow>
                      (case rotateLeft (Node v1 l1 r' c1 s1) of
                         Inl e \<Rightarrow> Inl e
                       | Inr node' \<Rightarrow> flipColors node'))
                else Inr (Node v1 l1 (Node rv rl rr rc rs) c1 s1)))"

fun moveRedRight :: "'a node \<Rightarrow> error + 'a node" where
  "moveRedRight Null = Inl AssertionError"
| "moveRedRight (Node v l r c s) =
     (if \<not> isRed (Node v l r c s) then Inl AssertionError
      else if r = Null \<or> isRed r \<or> isRed (left r) then Inl AssertionError
      else if l = Null then Inl AssertionError
      else (case flipColors (Node v l r c s) of
              Inl e \<Rightarrow> Inl e
            | Inr Null \<Rightarrow> Inl TypeError
            | Inr (Node v1 Null r1 c1 s1) \<Rightarrow> Inl TypeError
            | Inr (Node v1 (Node lv ll lr lc ls) r1 c1 s1) \<Rightarrow>
                if isRed ll then
                  (case rotateRight (Node v1 (Node lv ll lr lc ls) r1 c1 s1) of
                     Inl e \<Rightarrow> Inl e
                   | Inr node' \<Rightarrow> flipColors node')
                else Inr (Node v1 (Node lv ll lr lc ls) r1 c1 s1)))"

text \<open>\<^verbatim>\<open>balance\<close>: three conditional steps, each on the root left by the step before.
  There is no assignment to \<^verbatim>\<open>root.size\<close> in the function.\<close>

fun balance :: "'a node \<Rightarrow> error + 'a node" where
  "balance Null = Inl TypeError"
| "balance (Node v l r c s) =
     (case (if isRed r \<and> \<not> isRed l then rotateLeft (Node v l r c s) else Inr (Node v l r c s)) of
        Inl e \<Rightarrow> Inl e
      | Inr Null \<Rightarrow> Inl TypeError
      | Inr (Node v1 l1 r1 c1 s1) \<Rightarrow>
         (case (if l1 \<noteq> Null \<and> isRed l1 \<and> isRed (left l1)
                then rotateRight (Node v1 l1 r1 c1 s1) else Inr (Node v1 l1 r1 c1 s1)) of
            Inl e \<Rightarrow> Inl e
          | Inr Null \<Rightarrow> Inl TypeError
          | Inr (Node v2 l2 r2 c2 s2) \<Rightarrow>
              if isRed l2 \<and> isRed r2 then flipColors (Node v2 l2 r2 c2 s2)
              else Inr (Node v2 l2 r2 c2 s2)))"

fun insert_node :: "('a \<Rightarrow> 'a \<Rightarrow> int) \<Rightarrow> 'a node \<Rightarrow> 'a \<Rightarrow> error + 'a node" where
  "insert_node compareFn Null x = Inr (Node x Null Null RED 1)"
| "insert_node compareFn (Node v l r c s) x =
     (if compareFn x v < 0 then
        (case insert_node compareFn l x of
           Inl e \<Rightarrow> Inl e
         | Inr l' \<Rightarrow> balance (Node v l' r c s))
      else if compareFn x v > 0 then
        (case insert_node compareFn r x of
           Inl e \<Rightarrow> Inl e
         | Inr r' \<Rightarrow> balance (Node v l r' c s))
      else balance (Node v l r c s))"

text \<open>The number of nodes, the measure under which the deletions terminate: they recurse
  into a child of the root that \<^verbatim>\<open>moveRedLeft\<close>, \<^verbatim>\<open>moveRedRight\<close> or
  \<^verbatim>\<open>rotateRight\<close> returned.\<close>

fun count_nodes :: "'a node \<Rightarrow> nat" where
  "count_nodes Null = 0"
| "count_nodes (Node v l r c s) = count_nodes l + count_nodes r + 1"

lemma count_rotateLeft: "rotateLeft t = Inr t' \<Longrightarrow> count_nodes t' = count_nodes t"
  by (induction t rule: rotateLeft.induct) (auto split: if_splits)

lemma count_rotateRight: "rotateRight t = Inr t' \<Longrightarrow> count_nodes t' = count_nodes t"
  by (induction t rule: rotateRight.induct) (auto split: if_splits)

lemma count_flipColors: "flipColors t = Inr t' \<Longrightarrow> count_nodes t' = count_nodes t"
  by (induction t rule: flipColors.induct) (auto split: if_splits)

lemma flipColors_Inr:
  assumes "flipColors t = Inr f"
  shows "\<exists>v lv ll lr lc ls rv rl rr rc rs c s.
           t = Node v (Node lv ll lr lc ls) (Node rv rl rr rc rs) c s \<and>
           f = Node v (Node lv ll lr (\<not> lc) ls) (Node rv rl rr (\<not> rc) rs) (\<not> c) s \<and>
           lc = rc \<and> c \<noteq> lc"
  using assms by (induction t rule: flipColors.induct) (auto split: if_splits)

lemma count_moveRedLeft:
  assumes m: "moveRedLeft t = Inr t'"
  shows "count_nodes t' = count_nodes t"
proof (cases t)
  case Null
  with m show ?thesis by simp
next
  case (Node v l r c s)
  from m Node obtain f where f: "flipColors t = Inr f"
    by (auto split: if_splits sum.splits)
  then have cf: "count_nodes f = count_nodes t" by (rule count_flipColors)
  from flipColors_Inr[OF f] obtain v1 l1 rv rl rr rc rs c1 s1
    where feq: "f = Node v1 l1 (Node rv rl rr rc rs) c1 s1"
    by blast
  show ?thesis
  proof (cases "isRed rl")
    case False
    with m Node f feq have "t' = f" by (auto split: if_splits)
    with cf show ?thesis by simp
  next
    case True
    with m Node f feq obtain r' n' where
      r': "rotateRight (Node rv rl rr rc rs) = Inr r'" and
      n': "rotateLeft (Node v1 l1 r' c1 s1) = Inr n'" and
      t': "flipColors n' = Inr t'"
      by (auto split: if_splits sum.splits)
    from count_rotateRight[OF r'] count_rotateLeft[OF n'] count_flipColors[OF t'] cf feq
    show ?thesis by simp
  qed
qed

lemma count_moveRedRight:
  assumes m: "moveRedRight t = Inr t'"
  shows "count_nodes t' = count_nodes t"
proof (cases t)
  case Null
  with m show ?thesis by simp
next
  case (Node v l r c s)
  from m Node obtain f where f: "flipColors t = Inr f"
    by (auto split: if_splits sum.splits)
  then have cf: "count_nodes f = count_nodes t" by (rule count_flipColors)
  from flipColors_Inr[OF f] obtain v1 lv ll lr lc ls r1 c1 s1
    where feq: "f = Node v1 (Node lv ll lr lc ls) r1 c1 s1"
    by blast
  show ?thesis
  proof (cases "isRed ll")
    case False
    with m Node f feq have "t' = f" by (auto split: if_splits)
    with cf show ?thesis by simp
  next
    case True
    with m Node f feq obtain n' where
      n': "rotateRight f = Inr n'" and
      t': "flipColors n' = Inr t'"
      by (auto split: if_splits sum.splits)
    from count_rotateRight[OF n'] count_flipColors[OF t'] cf
    show ?thesis by simp
  qed
qed

function deleteMin :: "'a node \<Rightarrow> error + 'a node" where
  "deleteMin Null = Inl TypeError"
| "deleteMin (Node v l r c s) =
     (if \<not> (isRed (Node v l r c s) \<or> isRed l) then Inl AssertionError
      else if l = Null then Inr Null
      else (case (if \<not> isRed l \<and> \<not> isRed (left l) then moveRedLeft (Node v l r c s)
                  else Inr (Node v l r c s)) of
              Inl e \<Rightarrow> Inl e
            | Inr Null \<Rightarrow> Inl TypeError
            | Inr (Node v1 l1 r1 c1 s1) \<Rightarrow>
               (case deleteMin l1 of
                  Inl e \<Rightarrow> Inl e
                | Inr l2 \<Rightarrow> balance (Node v1 l2 r1 c1 s1))))"
  by pat_completeness auto
termination
proof (relation "measure count_nodes")
  show "wf (measure count_nodes)" by simp
next
  fix v l r c s x2 x21 x22 x23 x24 x25
  assume "(if \<not> isRed l \<and> \<not> isRed (left l) then moveRedLeft (Node v l r c s)
           else Inr (Node v l r c s)) = Inr x2"
    and "x2 = Node x21 (x22:: 'a node) x23 x24 x25"
  then have "count_nodes (Node x21 x22 x23 x24 x25) = count_nodes (Node v l r c s)"
    by (auto simp del: moveRedLeft.simps split: if_splits dest: count_moveRedLeft)
  then show "(x22, Node v l r c s) \<in> measure count_nodes" by simp
qed


function deleteMax :: "'a node \<Rightarrow> error + 'a node" where
  "deleteMax Null = Inl TypeError"
| "deleteMax (Node v l r c s) =
     (if \<not> (isRed (Node v l r c s) \<or> isRed r \<or> isRed l) then Inl AssertionError
      else (case (if isRed l then rotateRight (Node v l r c s) else Inr (Node v l r c s)) of
              Inl e \<Rightarrow> Inl e
            | Inr Null \<Rightarrow> Inl TypeError
            | Inr (Node v1 l1 r1 c1 s1) \<Rightarrow>
                if r1 = Null then Inr Null
                else (case (if \<not> isRed r1 \<and> \<not> isRed (left r1)
                            then moveRedRight (Node v1 l1 r1 c1 s1)
                            else Inr (Node v1 l1 r1 c1 s1)) of
                        Inl e \<Rightarrow> Inl e
                      | Inr Null \<Rightarrow> Inl TypeError
                      | Inr (Node v2 l2 r2 c2 s2) \<Rightarrow>
                         (case deleteMax r2 of
                            Inl e \<Rightarrow> Inl e
                          | Inr r3 \<Rightarrow> balance (Node v2 l2 r3 c2 s2)))))"
  by pat_completeness auto
termination
proof (relation "measure count_nodes")
  show "wf (measure count_nodes)" by simp
next
  fix v l r c s x2 x21 x22 x23 x24 x25 x2a x21a x22a x23a x24a x25a
  assume a: "(if isRed l then rotateRight (Node v l r c s) else Inr (Node v l r c s)) = Inr x2"
    and b: "x2 = Node x21 (x22:: 'a node) x23 x24 x25"
    and c: "(if \<not> isRed x23 \<and> \<not> isRed (left x23) then moveRedRight (Node x21 x22 x23 x24 x25)
             else Inr (Node x21 x22 x23 x24 x25)) = Inr x2a"
    and d: "x2a = Node x21a x22a (x23a:: 'a node) x24a x25a"
  from a have "count_nodes x2 = count_nodes (Node v l r c s)"
    by (auto simp del: rotateRight.simps split: if_splits dest: count_rotateRight)
  moreover from c have "count_nodes x2a = count_nodes (Node x21 x22 x23 x24 x25)"
    by (auto simp del: moveRedRight.simps split: if_splits dest: count_moveRedRight)
  ultimately show "(x23a, Node v l r c s) \<in> measure count_nodes"
    using b d by simp
qed

function remove_node :: "('a \<Rightarrow> 'a \<Rightarrow> int) \<Rightarrow> 'a node \<Rightarrow> 'a \<Rightarrow> error + 'a node" where
  "remove_node compareFn Null x = Inl TypeError"
| "remove_node compareFn (Node v l r c s) x =
     (if compareFn x v < 0 then
        (if l = Null then Inl AssertionError
         else (case (if \<not> isRed l \<and> \<not> isRed (left l) then moveRedLeft (Node v l r c s)
                     else Inr (Node v l r c s)) of
                 Inl e \<Rightarrow> Inl e
               | Inr Null \<Rightarrow> Inl TypeError
               | Inr (Node v1 l1 r1 c1 s1) \<Rightarrow>
                  (case remove_node compareFn l1 x of
                     Inl e \<Rightarrow> Inl e
                   | Inr l2 \<Rightarrow> balance (Node v1 l2 r1 c1 s1))))
      else
        (case (if isRed l then rotateRight (Node v l r c s) else Inr (Node v l r c s)) of
           Inl e \<Rightarrow> Inl e
         | Inr Null \<Rightarrow> Inl TypeError
         | Inr (Node v1 l1 r1 c1 s1) \<Rightarrow>
             if compareFn x v1 = 0 \<and> r1 = Null then Inr Null
             else if r1 = Null then Inl AssertionError
             else (case (if \<not> isRed r1 \<and> \<not> isRed (left r1)
                         then moveRedRight (Node v1 l1 r1 c1 s1)
                         else Inr (Node v1 l1 r1 c1 s1)) of
                     Inl e \<Rightarrow> Inl e
                   | Inr Null \<Rightarrow> Inl TypeError
                   | Inr (Node v2 l2 r2 c2 s2) \<Rightarrow>
                       if compareFn x v2 = 0 then
                         (case min_node r2 of
                            Inl e \<Rightarrow> Inl e
                          | Inr Null \<Rightarrow> Inl TypeError
                          | Inr (Node mv ml mr mc ms) \<Rightarrow>
                             (case deleteMin r2 of
                                Inl e \<Rightarrow> Inl e
                              | Inr r3 \<Rightarrow> balance (Node mv l2 r3 c2 s2)))
                       else
                         (case remove_node compareFn r2 x of
                            Inl e \<Rightarrow> Inl e
                          | Inr r3 \<Rightarrow> balance (Node v2 l2 r3 c2 s2)))))"
  by pat_completeness auto
termination
proof (relation "measure (\<lambda>(compareFn, t, x). count_nodes t)")
  show "wf (measure (\<lambda>(compareFn, t, x). count_nodes t))" by simp
next
  fix compareFn :: "'a \<Rightarrow> 'a \<Rightarrow> int" and v l r c s and x :: 'a and x2 x21 x22 x23 x24 x25
  assume "(if \<not> isRed l \<and> \<not> isRed (left l) then moveRedLeft (Node v l r c s)
           else Inr (Node v l r c s)) = Inr x2"
    and "x2 = Node x21 (x22:: 'a node) x23 x24 x25"
  then have "count_nodes (Node x21 x22 x23 x24 x25) = count_nodes (Node v l r c s)"
    by (auto simp del: moveRedLeft.simps split: if_splits dest: count_moveRedLeft)
  then show "((compareFn, x22, x), compareFn, Node v l r c s, x)
             \<in> measure (\<lambda>(compareFn, t, x). count_nodes t)" by simp
next
  fix compareFn :: "'a \<Rightarrow> 'a \<Rightarrow> int" and v l r c s and x :: 'a and x2 x21 x22 x23 x24 x25 x2a x21a x22a x23a x24a x25a
  assume a: "(if isRed l then rotateRight (Node v l r c s) else Inr (Node v l r c s)) = Inr x2"
    and b: "x2 = Node x21 (x22:: 'a node) x23 x24 x25"
    and c: "(if \<not> isRed x23 \<and> \<not> isRed (left x23) then moveRedRight (Node x21 x22 x23 x24 x25)
             else Inr (Node x21 x22 x23 x24 x25)) = Inr x2a"
    and d: "x2a = Node x21a x22a (x23a:: 'a node) x24a x25a"
  from a have "count_nodes x2 = count_nodes (Node v l r c s)"
    by (auto simp del: rotateRight.simps split: if_splits dest: count_rotateRight)
  moreover from c have "count_nodes x2a = count_nodes (Node x21 x22 x23 x24 x25)"
    by (auto simp del: moveRedRight.simps split: if_splits dest: count_moveRedRight)
  ultimately show "((compareFn, x23a, x), compareFn, Node v l r c s, x)
             \<in> measure (\<lambda>(compareFn, t, x). count_nodes t)"
    using b d by simp
qed


subsection \<open>The SortedSet class\<close>

text \<open>
  The object is a record of its two fields. A public method yields an outcome:
  \<^item> \<open>Returned r s\<close>: it returned \<open>r\<close> and left the container in state \<open>s\<close>;
  \<^item> \<open>Thrown e s\<close>: the method itself threw \<open>e\<close>, before any node was touched, so
    the container is still in state \<open>s\<close>;
  \<^item> \<open>Aborted e\<close>: a helper threw \<open>e\<close> (an assertion, or an access on \<^verbatim>\<open>null\<close>) while
    nodes were being updated in place; what the container holds afterwards is not
    modelled.
\<close>

datatype ('r, 's) outcome = Returned 'r 's | Thrown error 's | Aborted error

record 'a SortedSet =
  s_root :: "'a node"
  s_compareFn :: "'a \<Rightarrow> 'a \<Rightarrow> int"

definition SortedSet_new :: "('a \<Rightarrow> 'a \<Rightarrow> int) \<Rightarrow> 'a SortedSet" where
  "SortedSet_new compareFn = \<lparr>s_root = Null, s_compareFn = compareFn\<rparr>"

definition SortedSet_size :: "'a SortedSet \<Rightarrow> nat" where
  "SortedSet_size this = size_of (s_root this)"

definition SortedSet_isEmpty :: "'a SortedSet \<Rightarrow> bool" where
  "SortedSet_isEmpty this = (s_root this = Null)"

definition SortedSet_clear :: "'a SortedSet \<Rightarrow> 'a SortedSet" where
  "SortedSet_clear this = this\<lparr>s_root := Null\<rparr>"

definition SortedSet_has :: "'a SortedSet \<Rightarrow> 'a \<Rightarrow> bool" where
  "SortedSet_has this x = has (s_compareFn this) (s_root this) x"

definition SortedSet_add :: "'a SortedSet \<Rightarrow> 'a \<Rightarrow> (unit, 'a SortedSet) outcome" where
  "SortedSet_add this x =
     (case insert_node (s_compareFn this) (s_root this) x of
        Inl e \<Rightarrow> Aborted e
      | Inr Null \<Rightarrow> Aborted TypeError
      | Inr (Node v l r c s) \<Rightarrow> Returned () (this\<lparr>s_root := Node v l r BLACK s\<rparr>))"

text \<open>After a deletion the root is painted black unless the set became empty.\<close>

fun blacken :: "'a node \<Rightarrow> 'a node" where
  "blacken Null = Null"
| "blacken (Node v l r c s) = Node v l r BLACK s"

definition SortedSet_delete :: "'a SortedSet \<Rightarrow> 'a \<Rightarrow> (bool, 'a SortedSet) outcome" where
  "SortedSet_delete this x =
     (if \<not> SortedSet_has this x then Returned False this
      else (case s_root this of
              Null \<Rightarrow> Aborted TypeError
            | Node v l r c s \<Rightarrow>
               (case remove_node (s_compareFn this)
                       (if \<not> isRed l \<and> \<not> isRed r then Node v l r RED s else Node v l r c s) x of
                  Inl e \<Rightarrow> Aborted e
                | Inr root' \<Rightarrow> Returned True (this\<lparr>s_root := blacken root'\<rparr>))))"

definition SortedSet_min :: "'a SortedSet \<Rightarrow> ('a, 'a SortedSet) outcome" where
  "SortedSet_min this =
     (if SortedSet_isEmpty this then Thrown (NoSuchElementError ''Sorted set is empty'') this
      else (case min_node (s_root this) of
              Inl e \<Rightarrow> Aborted e
            | Inr Null \<Rightarrow> Aborted TypeError
            | Inr (Node v l r c s) \<Rightarrow> Returned v this))"

definition SortedSet_max :: "'a SortedSet \<Rightarrow> ('a, 'a SortedSet) outcome" where
  "SortedSet_max this =
     (if SortedSet_isEmpty this then Thrown (NoSuchElementError ''Sorted set is empty'') this
      else (case max_node (s_root this) of
              Inl e \<Rightarrow> Aborted e
            | Inr Null \<Rightarrow> Aborted TypeError
            | Inr (Node v l r c s) \<Rightarrow> Returned v this))"

definition SortedSet_deleteMin :: "'a SortedSet \<Rightarrow> (unit, 'a SortedSet) outcome" where
  "SortedSet_deleteMin this =
     (if SortedSet_isEmpty this then Thrown (NoSuchElementError ''Sorted set is empty'') this
      else (case s_root this of
              Null \<Rightarrow> Aborted TypeError
            | Node v l r c s \<Rightarrow>
               (case deleteMin (if \<not> isRed l \<and> \<not> isRed r then Node v l r RED s else Node v l r c s) of
                  Inl e \<Rightarrow> Aborted e
                | Inr root' \<Rightarrow> Returned () (this\<lparr>s_root := blacken root'\<rparr>))))"

definition SortedSet_deleteMax :: "'a SortedSet \<Rightarrow> (unit, 'a SortedSet) outcome" where
  "SortedSet_deleteMax this =
     (if SortedSet_isEmpty this then Thrown (NoSuchElementError ''Sorted set is empty'') this
      else (case s_root this of
              Null \<Rightarrow> Aborted TypeError
            | Node v l r c s \<Rightarrow>
               (case deleteMax (if \<not> isRed l \<and> \<not> isRed r then Node v l r RED s else Node v l r c s) of
                  Inl e \<Rightarrow> Aborted e
                | Inr root' \<Rightarrow> Returned () (this\<lparr>s_root := blacken root'\<rparr>))))"

definition SortedSet_floor :: "'a SortedSet \<Rightarrow> 'a \<Rightarrow> ('a, 'a SortedSet) outcome" where
  "SortedSet_floor this x =
     (if SortedSet_isEmpty this then Thrown (NoSuchElementError ''Sorted set is empty'') this
      else (case floor_node (s_compareFn this) (s_root this) x of
              Null \<Rightarrow> Thrown (NoSuchElementError ''Value is too small'') this
            | Node v l r c s \<Rightarrow> Returned v this))"

definition SortedSet_ceiling :: "'a SortedSet \<Rightarrow> 'a \<Rightarrow> ('a, 'a SortedSet) outcome" where
  "SortedSet_ceiling this x =
     (if SortedSet_isEmpty this then Thrown (NoSuchElementError ''Sorted set is empty'') this
      else (case ceiling_node (s_compareFn this) (s_root this) x of
              Null \<Rightarrow> Thrown (NoSuchElementError ''Value is too small'') this
            | Node v l r c s \<Rightarrow> Returned v this))"

text \<open>
  The iterator is a generator: its body, \<^verbatim>\<open>for (const value of createSnapshot(this._root))
  yield value\<close>, starts at the first \<^verbatim>\<open>next()\<close>, which takes the snapshot from the
  container as it is then; every later \<^verbatim>\<open>next()\<close> reads the array that was built.
  \<open>Suspended\<close> is the generator before its first \<^verbatim>\<open>next()\<close>, \<open>Yielding xs\<close> the
  generator inside the loop with \<open>xs\<close> left to yield. \<open>iterator_next\<close> is given the
  container as it is at the time of the call.
\<close>

datatype 'e iterator = Suspended | Yielding "'e list"

fun yield_next :: "'e list \<Rightarrow> 'e option \<times> 'e iterator" where
  "yield_next [] = (None, Yielding [])"
| "yield_next (x # xs) = (Some x, Yielding xs)"

fun SortedSet_iterator_next :: "'a SortedSet \<Rightarrow> 'a iterator \<Rightarrow> 'a option \<times> 'a iterator" where
  "SortedSet_iterator_next this Suspended = yield_next (createSnapshot (s_root this))"
| "SortedSet_iterator_next this (Yielding xs) = yield_next xs"

section \<open>The sorted map\<close>

text \<open>
  \<^verbatim>\<open>sorted-map/index.ts\<close> imports \<^verbatim>\<open>./node\<close>, \<^verbatim>\<open>./BST\<close> and \<^verbatim>\<open>./redBlackBST\<close>.
  \<^verbatim>\<open>BST.ts\<close> is the map's own; the node class and the red-black module are
  embedded from the copies in \<^verbatim>\<open>ordered-map/\<close> (\<^verbatim>\<open>node.ts\<close>, and the module
  \<^verbatim>\<open>redBlackBST\<close> that follows the tests in \<^verbatim>\<open>index.test.ts\<close>), which differ from the
  set's only in carrying a key and a value: \<^verbatim>\<open>insert\<close> overwrites the value on an equal
  key and \<^verbatim>\<open>remove\<close> copies both the key and the value of the successor.
\<close>

subsection \<open>ordered-map/node.ts\<close>

datatype ('k, 'v) mnode =
  MNull
  | MNode (mkey: 'k) (mvalue: 'v) (mleft: "('k, 'v) mnode") (mright: "('k, 'v) mnode")
      (mcolor: bool) (msz: nat)

fun map_size_of :: "('k, 'v) mnode \<Rightarrow> nat" where
  "map_size_of MNull = 0"
| "map_size_of (MNode k v l r c s) = s"

fun map_isRed :: "('k, 'v) mnode \<Rightarrow> bool" where
  "map_isRed MNull = False"
| "map_isRed (MNode k v l r c s) = (c = RED)"

subsection \<open>sorted-map/BST.ts\<close>

fun map_has :: "('k \<Rightarrow> 'k \<Rightarrow> int) \<Rightarrow> ('k, 'v) mnode \<Rightarrow> 'k \<Rightarrow> bool" where
  "map_has compareFn MNull x = False"
| "map_has compareFn (MNode k v l r c s) x =
     (if compareFn x k < 0 then map_has compareFn l x
      else if compareFn x k > 0 then map_has compareFn r x
      else True)"

text \<open>\<^verbatim>\<open>get\<close> throws \<^verbatim>\<open>new NoSuchElementError()\<close>, without a message.\<close>

fun map_get :: "('k \<Rightarrow> 'k \<Rightarrow> int) \<Rightarrow> ('k, 'v) mnode \<Rightarrow> 'k \<Rightarrow> error + 'v" where
  "map_get compareFn MNull x = Inl (NoSuchElementError [])"
| "map_get compareFn (MNode k v l r c s) x =
     (if compareFn x k < 0 then map_get compareFn l x
      else if compareFn x k > 0 then map_get compareFn r x
      else Inr v)"

fun map_min_node :: "('k, 'v) mnode \<Rightarrow> error + ('k, 'v) mnode" where
  "map_min_node MNull = Inl TypeError"
| "map_min_node (MNode k v l r c s) = (if l = MNull then Inr (MNode k v l r c s) else map_min_node l)"

fun map_max_node :: "('k, 'v) mnode \<Rightarrow> error + ('k, 'v) mnode" where
  "map_max_node MNull = Inl TypeError"
| "map_max_node (MNode k v l r c s) = (if r = MNull then Inr (MNode k v l r c s) else map_max_node r)"

fun map_floor_node :: "('k \<Rightarrow> 'k \<Rightarrow> int) \<Rightarrow> ('k, 'v) mnode \<Rightarrow> 'k \<Rightarrow> ('k, 'v) mnode" where
  "map_floor_node compareFn MNull x = MNull"
| "map_floor_node compareFn (MNode k v l r c s) x =
     (if compareFn x k = 0 then MNode k v l r c s
      else if compareFn x k < 0 then map_floor_node compareFn l x
      else (case map_floor_node compareFn r x of MNull \<Rightarrow> MNode k v l r c s | MNode k' v' l' r' c' s' \<Rightarrow> MNode k' v' l' r' c' s'))"

fun map_ceiling_node :: "('k \<Rightarrow> 'k \<Rightarrow> int) \<Rightarrow> ('k, 'v) mnode \<Rightarrow> 'k \<Rightarrow> ('k, 'v) mnode" where
  "map_ceiling_node compareFn MNull x = MNull"
| "map_ceiling_node compareFn (MNode k v l r c s) x =
     (if compareFn x k = 0 then MNode k v l r c s
      else if compareFn x k > 0 then map_ceiling_node compareFn r x
      else (case map_ceiling_node compareFn l x of MNull \<Rightarrow> MNode k v l r c s | MNode k' v' l' r' c' s' \<Rightarrow> MNode k' v' l' r' c' s'))"

text \<open>\<^verbatim>\<open>dfs\<close> pushes the fresh pair \<^verbatim>\<open>[node.key, node.value]\<close>.\<close>

fun map_dfs :: "('k, 'v) mnode \<Rightarrow> ('k \<times> 'v) list \<Rightarrow> ('k \<times> 'v) list" where
  "map_dfs MNull snapshot = snapshot"
| "map_dfs (MNode k v l r c s) snapshot = map_dfs r (map_dfs l snapshot @ [(k, v)])"

definition map_createSnapshot :: "('k, 'v) mnode \<Rightarrow> ('k \<times> 'v) list" where
  "map_createSnapshot root = (if root = MNull then [] else map_dfs root [])"

subsection \<open>ordered-map: redBlackBST\<close>

fun map_rotateLeft :: "('k, 'v) mnode \<Rightarrow> error + ('k, 'v) mnode" where
  "map_rotateLeft MNull = Inl TypeError"
| "map_rotateLeft (MNode k v l MNull c s) = Inl AssertionError"
| "map_rotateLeft (MNode k v l (MNode rk rv rl rr rc rs) c s) =
     (if \<not> map_isRed (MNode rk rv rl rr rc rs) then Inl AssertionError
      else Inr (MNode rk rv (MNode k v l rl RED (map_size_of l + map_size_of rl + 1)) rr c s))"

fun map_rotateRight :: "('k, 'v) mnode \<Rightarrow> error + ('k, 'v) mnode" where
  "map_rotateRight MNull = Inl TypeError"
| "map_rotateRight (MNode k v MNull r c s) = Inl AssertionError"
| "map_rotateRight (MNode k v (MNode lk lv ll lr lc ls) r c s) =
     (if \<not> map_isRed (MNode lk lv ll lr lc ls) then Inl AssertionError
      else Inr (MNode lk lv ll (MNode k v lr r RED (map_size_of lr + map_size_of r + 1)) c s))"

fun map_flipColors :: "('k, 'v) mnode \<Rightarrow> error + ('k, 'v) mnode" where
  "map_flipColors MNull = Inl TypeError"
| "map_flipColors (MNode k v MNull r c s) = Inl AssertionError"
| "map_flipColors (MNode k v (MNode lk lv ll lr lc ls) MNull c s) = Inl AssertionError"
| "map_flipColors (MNode k v (MNode lk lv ll lr lc ls) (MNode rk rv rl rr rc rs) c s) =
     (if map_isRed (MNode lk lv ll lr lc ls) \<noteq> map_isRed (MNode rk rv rl rr rc rs) then Inl AssertionError
      else if map_isRed (MNode k v (MNode lk lv ll lr lc ls) (MNode rk rv rl rr rc rs) c s) = map_isRed (MNode lk lv ll lr lc ls)
        then Inl AssertionError
      else Inr (MNode k v (MNode lk lv ll lr (\<not> lc) ls) (MNode rk rv rl rr (\<not> rc) rs) (\<not> c) s))"

fun map_moveRedLeft :: "('k, 'v) mnode \<Rightarrow> error + ('k, 'v) mnode" where
  "map_moveRedLeft MNull = Inl AssertionError"
| "map_moveRedLeft (MNode k v l r c s) =
     (if \<not> map_isRed (MNode k v l r c s) then Inl AssertionError
      else if l = MNull \<or> map_isRed l \<or> map_isRed (mleft l) then Inl AssertionError
      else if r = MNull then Inl AssertionError
      else (case map_flipColors (MNode k v l r c s) of
              Inl e \<Rightarrow> Inl e
            | Inr MNull \<Rightarrow> Inl TypeError
            | Inr (MNode k1 v1 l1 MNull c1 s1) \<Rightarrow> Inl TypeError
            | Inr (MNode k1 v1 l1 (MNode rk rv rl rr rc rs) c1 s1) \<Rightarrow>
                if map_isRed rl then
                  (case map_rotateRight (MNode rk rv rl rr rc rs) of
                     Inl e \<Rightarrow> Inl e
                   | Inr r' \<Rightarrow>
                      (case map_rotateLeft (MNode k1 v1 l1 r' c1 s1) of
                         Inl e \<Rightarrow> Inl e
                       | Inr node' \<Rightarrow> map_flipColors node'))
                else Inr (MNode k1 v1 l1 (MNode rk rv rl rr rc rs) c1 s1)))"

fun map_moveRedRight :: "('k, 'v) mnode \<Rightarrow> error + ('k, 'v) mnode" where
  "map_moveRedRight MNull = Inl AssertionError"
| "map_moveRedRight (MNode k v l r c s) =
     (if \<not> map_isRed (MNode k v l r c s) then Inl AssertionError
      else if r = MNull \<or> map_isRed r \<or> map_isRed (mleft r) then Inl AssertionError
      else if l = MNull then Inl AssertionError
      else (case map_flipColors (MNode k v l r c s) of
              Inl e \<Rightarrow> Inl e
            | Inr MNull \<Rightarrow> Inl TypeError
            | Inr (MNode k1 v1 MNull r1 c1 s1) \<Rightarrow> Inl TypeError
            | Inr (MNode k1 v1 (MNode lk lv ll lr lc ls) r1 c1 s1) \<Rightarrow>
                if map_isRed ll then
                  (case map_rotateRight (MNode k1 v1 (MNode lk lv ll lr lc ls) r1 c1 s1) of
                     Inl e \<Rightarrow> Inl e
                   | Inr node' \<Rightarrow> map_flipColors node')
                else Inr (MNode k1 v1 (MNode lk lv ll lr lc ls) r1 c1 s1)))"

text \<open>As in the set, \<^verbatim>\<open>balance\<close> has no assignment to \<^verbatim>\<open>root.size\<close>.\<close>

fun map_balance :: "('k, 'v) mnode \<Rightarrow> error + ('k, 'v) mnode" where
  "map_balance MNull = Inl TypeError"
| "map_balance (MNode k v l r c s) =
     (case (if map_isRed r \<and> \<not> map_isRed l then map_rotateLeft (MNode k v l r c s) else Inr (MNode k v l r c s)) of
        Inl e \<Rightarrow> Inl e
      | Inr MNull \<Rightarrow> Inl TypeError
      | Inr (MNode k1 v1 l1 r1 c1 s1) \<Rightarrow>
         (case (if l1 \<noteq> MNull \<and> map_isRed l1 \<and> map_isRed (mleft l1)
                then map_rotateRight (MNode k1 v1 l1 r1 c1 s1) else Inr (MNode k1 v1 l1 r1 c1 s1)) of
            Inl e \<Rightarrow> Inl e
          | Inr MNull \<Rightarrow> Inl TypeError
          | Inr (MNode k2 v2 l2 r2 c2 s2) \<Rightarrow>
              if map_isRed l2 \<and> map_isRed r2 then map_flipColors (MNode k2 v2 l2 r2 c2 s2)
              else Inr (MNode k2 v2 l2 r2 c2 s2)))"

fun map_insert_node ::
  "('k \<Rightarrow> 'k \<Rightarrow> int) \<Rightarrow> ('k, 'v) mnode \<Rightarrow> 'k \<Rightarrow> 'v \<Rightarrow> error + ('k, 'v) mnode" where
  "map_insert_node compareFn MNull x y = Inr (MNode x y MNull MNull RED 1)"
| "map_insert_node compareFn (MNode k v l r c s) x y =
     (if compareFn x k < 0 then
        (case map_insert_node compareFn l x y of
           Inl e \<Rightarrow> Inl e
         | Inr l' \<Rightarrow> map_balance (MNode k v l' r c s))
      else if compareFn x k > 0 then
        (case map_insert_node compareFn r x y of
           Inl e \<Rightarrow> Inl e
         | Inr r' \<Rightarrow> map_balance (MNode k v l r' c s))
      else map_balance (MNode k y l r c s))"

fun map_count_nodes :: "('k, 'v) mnode \<Rightarrow> nat" where
  "map_count_nodes MNull = 0"
| "map_count_nodes (MNode k v l r c s) = map_count_nodes l + map_count_nodes r + 1"

lemma map_count_rotateLeft: "map_rotateLeft t = Inr t' \<Longrightarrow> map_count_nodes t' = map_count_nodes t"
  by (induction t rule: map_rotateLeft.induct) (auto split: if_splits)

lemma map_count_rotateRight: "map_rotateRight t = Inr t' \<Longrightarrow> map_count_nodes t' = map_count_nodes t"
  by (induction t rule: map_rotateRight.induct) (auto split: if_splits)

lemma map_count_flipColors: "map_flipColors t = Inr t' \<Longrightarrow> map_count_nodes t' = map_count_nodes t"
  by (induction t rule: map_flipColors.induct) (auto split: if_splits)

lemma map_flipColors_Inr:
  assumes "map_flipColors t = Inr f"
  shows "\<exists>k v lk lv ll lr lc ls rk rv rl rr rc rs c s.
           t = MNode k v (MNode lk lv ll lr lc ls) (MNode rk rv rl rr rc rs) c s \<and>
           f = MNode k v (MNode lk lv ll lr (\<not> lc) ls) (MNode rk rv rl rr (\<not> rc) rs) (\<not> c) s \<and>
           lc = rc \<and> c \<noteq> lc"
  using assms by (induction t rule: map_flipColors.induct) (auto split: if_splits)

lemma map_count_moveRedLeft:
  assumes m: "map_moveRedLeft t = Inr t'"
  shows "map_count_nodes t' = map_count_nodes t"
proof (cases t)
  case MNull
  with m show ?thesis by simp
next
  case (MNode k v l r c s)
  from m MNode obtain f where f: "map_flipColors t = Inr f"
    by (auto split: if_splits sum.splits)
  then have cf: "map_count_nodes f = map_count_nodes t" by (rule map_count_flipColors)
  from map_flipColors_Inr[OF f] obtain k1 v1 l1 rk rv rl rr rc rs c1 s1
    where feq: "f = MNode k1 v1 l1 (MNode rk rv rl rr rc rs) c1 s1"
    by blast
  show ?thesis
  proof (cases "map_isRed rl")
    case False
    with m MNode f feq have "t' = f" by (auto split: if_splits)
    with cf show ?thesis by simp
  next
    case True
    with m MNode f feq obtain r' n' where
      r': "map_rotateRight (MNode rk rv rl rr rc rs) = Inr r'" and
      n': "map_rotateLeft (MNode k1 v1 l1 r' c1 s1) = Inr n'" and
      t': "map_flipColors n' = Inr t'"
      by (auto split: if_splits sum.splits)
    from map_count_rotateRight[OF r'] map_count_rotateLeft[OF n'] map_count_flipColors[OF t'] cf feq
    show ?thesis by simp
  qed
qed

lemma map_count_moveRedRight:
  assumes m: "map_moveRedRight t = Inr t'"
  shows "map_count_nodes t' = map_count_nodes t"
proof (cases t)
  case MNull
  with m show ?thesis by simp
next
  case (MNode k v l r c s)
  from m MNode obtain f where f: "map_flipColors t = Inr f"
    by (auto split: if_splits sum.splits)
  then have cf: "map_count_nodes f = map_count_nodes t" by (rule map_count_flipColors)
  from map_flipColors_Inr[OF f] obtain k1 v1 lk lv ll lr lc ls r1 c1 s1
    where feq: "f = MNode k1 v1 (MNode lk lv ll lr lc ls) r1 c1 s1"
    by blast
  show ?thesis
  proof (cases "map_isRed ll")
    case False
    with m MNode f feq have "t' = f" by (auto split: if_splits)
    with cf show ?thesis by simp
  next
    case True
    with m MNode f feq obtain n' where
      n': "map_rotateRight f = Inr n'" and
      t': "map_flipColors n' = Inr t'"
      by (auto split: if_splits sum.splits)
    from map_count_rotateRight[OF n'] map_count_flipColors[OF t'] cf
    show ?thesis by simp
  qed
qed

function map_deleteMin :: "('k, 'v) mnode \<Rightarrow> error + ('k, 'v) mnode" where
  "map_deleteMin MNull = Inl TypeError"
| "map_deleteMin (MNode k v l r c s) =
     (if \<not> (map_isRed (MNode k v l r c s) \<or> map_isRed l) then Inl AssertionError
      else if l = MNull then Inr MNull
      else (case (if \<not> map_isRed l \<and> \<not> map_isRed (mleft l) then map_moveRedLeft (MNode k v l r c s)
                  else Inr (MNode k v l r c s)) of
              Inl e \<Rightarrow> Inl e
            | Inr MNull \<Rightarrow> Inl TypeError
            | Inr (MNode k1 v1 l1 r1 c1 s1) \<Rightarrow>
               (case map_deleteMin l1 of
                  Inl e \<Rightarrow> Inl e
                | Inr l2 \<Rightarrow> map_balance (MNode k1 v1 l2 r1 c1 s1))))"
  by pat_completeness auto
termination
proof (relation "measure map_count_nodes")
  show "wf (measure map_count_nodes)" by simp
next
  fix k v l r c s x2 x21 x22z x22 x23 x24 x25
  assume "(if \<not> map_isRed l \<and> \<not> map_isRed (mleft l) then map_moveRedLeft (MNode k v l r c s)
           else Inr (MNode k v l r c s)) = Inr x2"
    and "x2 = MNode x21 x22z (x22:: ('k, 'v) mnode) x23 x24 x25"
  then have "map_count_nodes (MNode x21 x22z x22 x23 x24 x25) = map_count_nodes (MNode k v l r c s)"
    by (auto simp del: map_moveRedLeft.simps split: if_splits dest: map_count_moveRedLeft)
  then show "(x22, MNode k v l r c s) \<in> measure map_count_nodes" by simp
qed


function map_deleteMax :: "('k, 'v) mnode \<Rightarrow> error + ('k, 'v) mnode" where
  "map_deleteMax MNull = Inl TypeError"
| "map_deleteMax (MNode k v l r c s) =
     (if \<not> (map_isRed (MNode k v l r c s) \<or> map_isRed r \<or> map_isRed l) then Inl AssertionError
      else (case (if map_isRed l then map_rotateRight (MNode k v l r c s) else Inr (MNode k v l r c s)) of
              Inl e \<Rightarrow> Inl e
            | Inr MNull \<Rightarrow> Inl TypeError
            | Inr (MNode k1 v1 l1 r1 c1 s1) \<Rightarrow>
                if r1 = MNull then Inr MNull
                else (case (if \<not> map_isRed r1 \<and> \<not> map_isRed (mleft r1)
                            then map_moveRedRight (MNode k1 v1 l1 r1 c1 s1)
                            else Inr (MNode k1 v1 l1 r1 c1 s1)) of
                        Inl e \<Rightarrow> Inl e
                      | Inr MNull \<Rightarrow> Inl TypeError
                      | Inr (MNode k2 v2 l2 r2 c2 s2) \<Rightarrow>
                         (case map_deleteMax r2 of
                            Inl e \<Rightarrow> Inl e
                          | Inr r3 \<Rightarrow> map_balance (MNode k2 v2 l2 r3 c2 s2)))))"
  by pat_completeness auto
termination
proof (relation "measure map_count_nodes")
  show "wf (measure map_count_nodes)" by simp
next
  fix k v l r c s x2 x21 x22z x22 x23 x24 x25 x2a x21a x22az x22a x23a x24a x25a
  assume a: "(if map_isRed l then map_rotateRight (MNode k v l r c s) else Inr (MNode k v l r c s)) = Inr x2"
    and b: "x2 = MNode x21 x22z (x22:: ('k, 'v) mnode) x23 x24 x25"
    and c: "(if \<not> map_isRed x23 \<and> \<not> map_isRed (mleft x23) then map_moveRedRight (MNode x21 x22z x22 x23 x24 x25)
             else Inr (MNode x21 x22z x22 x23 x24 x25)) = Inr x2a"
    and d: "x2a = MNode x21a x22az x22a (x23a:: ('k, 'v) mnode) x24a x25a"
  from a have "map_count_nodes x2 = map_count_nodes (MNode k v l r c s)"
    by (auto simp del: map_rotateRight.simps split: if_splits dest: map_count_rotateRight)
  moreover from c have "map_count_nodes x2a = map_count_nodes (MNode x21 x22z x22 x23 x24 x25)"
    by (auto simp del: map_moveRedRight.simps split: if_splits dest: map_count_moveRedRight)
  ultimately show "(x23a, MNode k v l r c s) \<in> measure map_count_nodes"
    using b d by simp
qed

function map_remove_node :: "('k \<Rightarrow> 'k \<Rightarrow> int) \<Rightarrow> ('k, 'v) mnode \<Rightarrow> 'k \<Rightarrow> error + ('k, 'v) mnode" where
  "map_remove_node compareFn MNull x = Inl TypeError"
| "map_remove_node compareFn (MNode k v l r c s) x =
     (if compareFn x k < 0 then
        (if l = MNull then Inl AssertionError
         else (case (if \<not> map_isRed l \<and> \<not> map_isRed (mleft l) then map_moveRedLeft (MNode k v l r c s)
                     else Inr (MNode k v l r c s)) of
                 Inl e \<Rightarrow> Inl e
               | Inr MNull \<Rightarrow> Inl TypeError
               | Inr (MNode k1 v1 l1 r1 c1 s1) \<Rightarrow>
                  (case map_remove_node compareFn l1 x of
                     Inl e \<Rightarrow> Inl e
                   | Inr l2 \<Rightarrow> map_balance (MNode k1 v1 l2 r1 c1 s1))))
      else
        (case (if map_isRed l then map_rotateRight (MNode k v l r c s) else Inr (MNode k v l r c s)) of
           Inl e \<Rightarrow> Inl e
         | Inr MNull \<Rightarrow> Inl TypeError
         | Inr (MNode k1 v1 l1 r1 c1 s1) \<Rightarrow>
             if compareFn x k1 = 0 \<and> r1 = MNull then Inr MNull
             else if r1 = MNull then Inl AssertionError
             else (case (if \<not> map_isRed r1 \<and> \<not> map_isRed (mleft r1)
                         then map_moveRedRight (MNode k1 v1 l1 r1 c1 s1)
                         else Inr (MNode k1 v1 l1 r1 c1 s1)) of
                     Inl e \<Rightarrow> Inl e
                   | Inr MNull \<Rightarrow> Inl TypeError
                   | Inr (MNode k2 v2 l2 r2 c2 s2) \<Rightarrow>
                       if compareFn x k2 = 0 then
                         (case map_min_node r2 of
                            Inl e \<Rightarrow> Inl e
                          | Inr MNull \<Rightarrow> Inl TypeError
                          | Inr (MNode mk mv ml mr mc ms) \<Rightarrow>
                             (case map_deleteMin r2 of
                                Inl e \<Rightarrow> Inl e
                              | Inr r3 \<Rightarrow> map_balance (MNode mk mv l2 r3 c2 s2)))
                       else
                         (case map_remove_node compareFn r2 x of
                            Inl e \<Rightarrow> Inl e
                          | Inr r3 \<Rightarrow> map_balance (MNode k2 v2 l2 r3 c2 s2)))))"
  by pat_completeness auto
termination
proof (relation "measure (\<lambda>(compareFn, t, x). map_count_nodes t)")
  show "wf (measure (\<lambda>(compareFn, t, x). map_count_nodes t))" by simp
next
  fix compareFn :: "'k \<Rightarrow> 'k \<Rightarrow> int" and k v l r c s and x :: 'k and x2 x21 x22z x22 x23 x24 x25
  assume "(if \<not> map_isRed l \<and> \<not> map_isRed (mleft l) then map_moveRedLeft (MNode k v l r c s)
           else Inr (MNode k v l r c s)) = Inr x2"
    and "x2 = MNode x21 x22z (x22:: ('k, 'v) mnode) x23 x24 x25"
  then have "map_count_nodes (MNode x21 x22z x22 x23 x24 x25) = map_count_nodes (MNode k v l r c s)"
    by (auto simp del: map_moveRedLeft.simps split: if_splits dest: map_count_moveRedLeft)
  then show "((compareFn, x22, x), compareFn, MNode k v l r c s, x)
             \<in> measure (\<lambda>(compareFn, t, x). map_count_nodes t)" by simp
next
  fix compareFn :: "'k \<Rightarrow> 'k \<Rightarrow> int" and k v l r c s and x :: 'k and x2 x21 x22z x22 x23 x24 x25 x2a x21a x22az x22a x23a x24a x25a
  assume a: "(if map_isRed l then map_rotateRight (MNode k v l r c s) else Inr (MNode k v l r c s)) = Inr x2"
    and b: "x2 = MNode x21 x22z (x22:: ('k, 'v) mnode) x23 x24 x25"
    and c: "(if \<not> map_isRed x23 \<and> \<not> map_isRed (mleft x23) then map_moveRedRight (MNode x21 x22z x22 x23 x24 x25)
             else Inr (MNode x21 x22z x22 x23 x24 x25)) = Inr x2a"
    and d: "x2a = MNode x21a x22az x22a (x23a:: ('k, 'v) mnode) x24a x25a"
  from a have "map_count_nodes x2 = map_count_nodes (MNode k v l r c s)"
    by (auto simp del: map_rotateRight.simps split: if_splits dest: map_count_rotateRight)
  moreover from c have "map_count_nodes x2a = map_count_nodes (MNode x21 x22z x22 x23 x24 x25)"
    by (auto simp del: map_moveRedRight.simps split: if_splits dest: map_count_moveRedRight)
  ultimately show "((compareFn, x23a, x), compareFn, MNode k v l r c s, x)
             \<in> measure (\<lambda>(compareFn, t, x). map_count_nodes t)"
    using b d by simp
qed


subsection \<open>The SortedMap class\<close>

record ('k, 'v) SortedMap =
  m_root :: "('k, 'v) mnode"
  m_compareFn :: "'k \<Rightarrow> 'k \<Rightarrow> int"

definition SortedMap_new :: "('k \<Rightarrow> 'k \<Rightarrow> int) \<Rightarrow> ('k, 'v) SortedMap" where
  "SortedMap_new compareFn = \<lparr>m_root = MNull, m_compareFn = compareFn\<rparr>"

definition SortedMap_size :: "('k, 'v) SortedMap \<Rightarrow> nat" where
  "SortedMap_size this = map_size_of (m_root this)"

definition SortedMap_isEmpty :: "('k, 'v) SortedMap \<Rightarrow> bool" where
  "SortedMap_isEmpty this = (m_root this = MNull)"

definition SortedMap_clear :: "('k, 'v) SortedMap \<Rightarrow> ('k, 'v) SortedMap" where
  "SortedMap_clear this = this\<lparr>m_root := MNull\<rparr>"

text \<open>
  \<^verbatim>\<open>get(key): V | undefined\<close> catches whatever the search throws and returns
  \<^verbatim>\<open>undefined\<close>. A JavaScript value of the map is \<open>Undefined\<close> or \<open>Defined v\<close>; the
  facade's \<^verbatim>\<open>get\<close> returns the stored value as it is, so a stored \<^verbatim>\<open>undefined\<close> and the
  result for an absent key are the same value.
\<close>

datatype 'v js = Undefined | Defined 'v

definition SortedMap_get :: "('k, 'v js) SortedMap \<Rightarrow> 'k \<Rightarrow> 'v js" where
  "SortedMap_get this x =
     (case map_get (m_compareFn this) (m_root this) x of
        Inl err \<Rightarrow> Undefined
      | Inr v \<Rightarrow> v)"

definition SortedMap_has :: "('k, 'v) SortedMap \<Rightarrow> 'k \<Rightarrow> bool" where
  "SortedMap_has this x = map_has (m_compareFn this) (m_root this) x"

definition SortedMap_set ::
  "('k, 'v) SortedMap \<Rightarrow> 'k \<Rightarrow> 'v \<Rightarrow> (unit, ('k, 'v) SortedMap) outcome" where
  "SortedMap_set this x y =
     (case map_insert_node (m_compareFn this) (m_root this) x y of
        Inl e \<Rightarrow> Aborted e
      | Inr MNull \<Rightarrow> Aborted TypeError
      | Inr (MNode k v l r c s) \<Rightarrow> Returned () (this\<lparr>m_root := MNode k v l r BLACK s\<rparr>))"

text \<open>After a deletion the root is painted black unless the map became empty.\<close>

fun map_blacken :: "('k, 'v) mnode \<Rightarrow> ('k, 'v) mnode" where
  "map_blacken MNull = MNull"
| "map_blacken (MNode k v l r c s) = MNode k v l r BLACK s"

definition SortedMap_delete :: "('k, 'v) SortedMap \<Rightarrow> 'k \<Rightarrow> (bool, ('k, 'v) SortedMap) outcome" where
  "SortedMap_delete this x =
     (if \<not> SortedMap_has this x then Returned False this
      else (case m_root this of
              MNull \<Rightarrow> Aborted TypeError
            | MNode k v l r c s \<Rightarrow>
               (case map_remove_node (m_compareFn this)
                       (if \<not> map_isRed l \<and> \<not> map_isRed r then MNode k v l r RED s else MNode k v l r c s) x of
                  Inl e \<Rightarrow> Aborted e
                | Inr root' \<Rightarrow> Returned True (this\<lparr>m_root := map_blacken root'\<rparr>))))"

definition SortedMap_min :: "('k, 'v) SortedMap \<Rightarrow> ('k, ('k, 'v) SortedMap) outcome" where
  "SortedMap_min this =
     (if SortedMap_isEmpty this then Thrown (NoSuchElementError ''Sorted map is empty'') this
      else (case map_min_node (m_root this) of
              Inl e \<Rightarrow> Aborted e
            | Inr MNull \<Rightarrow> Aborted TypeError
            | Inr (MNode k v l r c s) \<Rightarrow> Returned k this))"

definition SortedMap_max :: "('k, 'v) SortedMap \<Rightarrow> ('k, ('k, 'v) SortedMap) outcome" where
  "SortedMap_max this =
     (if SortedMap_isEmpty this then Thrown (NoSuchElementError ''Sorted map is empty'') this
      else (case map_max_node (m_root this) of
              Inl e \<Rightarrow> Aborted e
            | Inr MNull \<Rightarrow> Aborted TypeError
            | Inr (MNode k v l r c s) \<Rightarrow> Returned k this))"

definition SortedMap_deleteMin :: "('k, 'v) SortedMap \<Rightarrow> (unit, ('k, 'v) SortedMap) outcome" where
  "SortedMap_deleteMin this =
     (if SortedMap_isEmpty this then Thrown (NoSuchElementError ''Sorted map is empty'') this
      else (case m_root this of
              MNull \<Rightarrow> Aborted TypeError
            | MNode k v l r c s \<Rightarrow>
               (case map_deleteMin (if \<not> map_isRed l \<and> \<not> map_isRed r then MNode k v l r RED s else MNode k v l r c s) of
                  Inl e \<Rightarrow> Aborted e
                | Inr root' \<Rightarrow> Returned () (this\<lparr>m_root := map_blacken root'\<rparr>))))"

definition SortedMap_deleteMax :: "('k, 'v) SortedMap \<Rightarrow> (unit, ('k, 'v) SortedMap) outcome" where
  "SortedMap_deleteMax this =
     (if SortedMap_isEmpty this then Thrown (NoSuchElementError ''Sorted map is empty'') this
      else (case m_root this of
              MNull \<Rightarrow> Aborted TypeError
            | MNode k v l r c s \<Rightarrow>
               (case map_deleteMax (if \<not> map_isRed l \<and> \<not> map_isRed r then MNode k v l r RED s else MNode k v l r c s) of
                  Inl e \<Rightarrow> Aborted e
                | Inr root' \<Rightarrow> Returned () (this\<lparr>m_root := map_blacken root'\<rparr>))))"

definition SortedMap_floor :: "('k, 'v) SortedMap \<Rightarrow> 'k \<Rightarrow> ('k, ('k, 'v) SortedMap) outcome" where
  "SortedMap_floor this x =
     (if SortedMap_isEmpty this then Thrown (NoSuchElementError ''Sorted map is empty'') this
      else (case map_floor_node (m_compareFn this) (m_root this) x of
              MNull \<Rightarrow> Thrown (NoSuchElementError ''Key is too small'') this
            | MNode k v l r c s \<Rightarrow> Returned k this))"

definition SortedMap_ceiling :: "('k, 'v) SortedMap \<Rightarrow> 'k \<Rightarrow> ('k, ('k, 'v) SortedMap) outcome" where
  "SortedMap_ceiling this x =
     (if SortedMap_isEmpty this then Thrown (NoSuchElementError ''Sorted map is empty'') this
      else (case map_ceiling_node (m_compareFn this) (m_root this) x of
              MNull \<Rightarrow> Thrown (NoSuchElementError ''Key is too small'') this
            | MNode k v l r c s \<Rightarrow> Returned k this))"

fun SortedMap_iterator_next ::
  "('k, 'v) SortedMap \<Rightarrow> ('k \<times> 'v) iterator \<Rightarrow> ('k \<times> 'v) option \<times> ('k \<times> 'v) iterator" where
  "SortedMap_iterator_next this Suspended = yield_next (map_createSnapshot (m_root this))"
| "SortedMap_iterator_next this (Yielding xs) = yield_next xs"



section \<open>The invariants of the data model\<close>

text \<open>
  The comparator contract: the sign of \<open>compareFn a b\<close> is antisymmetric and "not
  greater" is transitive, that is, the comparator is a total preorder whose zero is
  its equivalence. Nothing more is assumed of it; in particular it may return zero on
  two different values.
\<close>

definition valid_compareFn :: "('a \<Rightarrow> 'a \<Rightarrow> int) \<Rightarrow> bool" where
  "valid_compareFn compareFn \<longleftrightarrow>
     (\<forall>a b. (compareFn a b < 0) = (compareFn b a > 0)) \<and>
     (\<forall>a b c. compareFn a b \<le> 0 \<longrightarrow> compareFn b c \<le> 0 \<longrightarrow> compareFn a c \<le> 0)"

text \<open>The comparator of the test suites, \<^verbatim>\<open>(a, b) => a - b\<close>, on integers.\<close>

definition number_compare :: "int \<Rightarrow> int \<Rightarrow> int" where
  "number_compare a b = a - b"

text \<open>Invariant 1: all values in \<^verbatim>\<open>left\<close> compare less than the node's, all values in
  \<^verbatim>\<open>right\<close> compare greater.\<close>

fun bst_order :: "('a \<Rightarrow> 'a \<Rightarrow> int) \<Rightarrow> 'a node \<Rightarrow> bool" where
  "bst_order compareFn Null = True"
| "bst_order compareFn (Node v l r c s) =
     ((\<forall>x \<in> set_node l. compareFn x v < 0) \<and> (\<forall>x \<in> set_node r. compareFn x v > 0) \<and>
      bst_order compareFn l \<and> bst_order compareFn r)"

text \<open>Invariant 2: a node's \<^verbatim>\<open>right\<close> child is never red.\<close>

fun no_red_right :: "'a node \<Rightarrow> bool" where
  "no_red_right Null = True"
| "no_red_right (Node v l r c s) = (\<not> isRed r \<and> no_red_right l \<and> no_red_right r)"

text \<open>Invariant 3: a red node's \<^verbatim>\<open>left\<close> child is never red.\<close>

fun no_red_red :: "'a node \<Rightarrow> bool" where
  "no_red_red Null = True"
| "no_red_red (Node v l r c s) = ((c = RED \<longrightarrow> \<not> isRed l) \<and> no_red_red l \<and> no_red_red r)"

text \<open>Invariant 4: the number of black nodes on each path from the root to an absent
  child, one entry per path, and the requirement that all entries agree.\<close>

fun black_counts :: "'a node \<Rightarrow> nat list" where
  "black_counts Null = [0]"
| "black_counts (Node v l r c s) =
     map (\<lambda>n. if c = BLACK then Suc n else n) (black_counts l @ black_counts r)"

definition black_balanced :: "'a node \<Rightarrow> bool" where
  "black_balanced t \<longleftrightarrow> (\<forall>n \<in> set (black_counts t). \<forall>m \<in> set (black_counts t). n = m)"

text \<open>Invariant 5: the root is black (or absent).\<close>

definition root_black :: "'a node \<Rightarrow> bool" where
  "root_black t \<longleftrightarrow> \<not> isRed t"

text \<open>Invariant 6: \<^verbatim>\<open>size\<close> of a node equals 1 + size(left) + size(right).\<close>

fun sizes_ok :: "'a node \<Rightarrow> bool" where
  "sizes_ok Null = True"
| "sizes_ok (Node v l r c s) = (s = 1 + size_of l + size_of r \<and> sizes_ok l \<and> sizes_ok r)"

text \<open>The in-order sequence of the values, and the number of values a comparator search
  for \<open>x\<close> can stop at.\<close>

fun inorder :: "'a node \<Rightarrow> 'a list" where
  "inorder Null = []"
| "inorder (Node v l r c s) = inorder l @ v # inorder r"

text \<open>The same six for the map, on keys.\<close>

fun map_bst_order :: "('k \<Rightarrow> 'k \<Rightarrow> int) \<Rightarrow> ('k, 'v) mnode \<Rightarrow> bool" where
  "map_bst_order compareFn MNull = True"
| "map_bst_order compareFn (MNode k v l r c s) =
     ((\<forall>x \<in> set1_mnode l. compareFn x k < 0) \<and> (\<forall>x \<in> set1_mnode r. compareFn x k > 0) \<and>
      map_bst_order compareFn l \<and> map_bst_order compareFn r)"

fun map_sizes_ok :: "('k, 'v) mnode \<Rightarrow> bool" where
  "map_sizes_ok MNull = True"
| "map_sizes_ok (MNode k v l r c s) =
     (s = 1 + map_size_of l + map_size_of r \<and> map_sizes_ok l \<and> map_sizes_ok r)"

fun entries :: "('k, 'v) mnode \<Rightarrow> ('k \<times> 'v) list" where
  "entries MNull = []"
| "entries (MNode k v l r c s) = entries l @ (k, v) # entries r"


section \<open>Sequences of public calls\<close>

text \<open>
  A call of a public method of the set, and the run of a sequence of calls from a given
  container: a call that returns or throws its own \<^verbatim>\<open>NoSuchElementError\<close> leaves a
  container on which the next call is made (the caller may catch the error); a call that
  aborts in a helper ends the run with the error. \<open>Call_iterate\<close> creates an iterator and
  drains it at once.
\<close>

datatype 'a set_call =
  Call_size | Call_isEmpty | Call_clear | Call_has 'a | Call_add 'a | Call_delete 'a | Call_min | Call_max
  | Call_deleteMin | Call_deleteMax | Call_floor 'a | Call_ceiling 'a | Call_iterate

datatype 'a set_result = RUnit | RBool bool | RNat nat | RValue 'a | RList "'a list"

fun SortedSet_call :: "'a SortedSet \<Rightarrow> 'a set_call \<Rightarrow> ('a set_result, 'a SortedSet) outcome" where
  "SortedSet_call this Call_size = Returned (RNat (SortedSet_size this)) this"
| "SortedSet_call this Call_isEmpty = Returned (RBool (SortedSet_isEmpty this)) this"
| "SortedSet_call this Call_clear = Returned RUnit (SortedSet_clear this)"
| "SortedSet_call this (Call_has x) = Returned (RBool (SortedSet_has this x)) this"
| "SortedSet_call this (Call_add x) = map_outcome (\<lambda>u. RUnit) id (SortedSet_add this x)"
| "SortedSet_call this (Call_delete x) = map_outcome RBool id (SortedSet_delete this x)"
| "SortedSet_call this Call_min = map_outcome RValue id (SortedSet_min this)"
| "SortedSet_call this Call_max = map_outcome RValue id (SortedSet_max this)"
| "SortedSet_call this Call_deleteMin = map_outcome (\<lambda>u. RUnit) id (SortedSet_deleteMin this)"
| "SortedSet_call this Call_deleteMax = map_outcome (\<lambda>u. RUnit) id (SortedSet_deleteMax this)"
| "SortedSet_call this (Call_floor x) = map_outcome RValue id (SortedSet_floor this x)"
| "SortedSet_call this (Call_ceiling x) = map_outcome RValue id (SortedSet_ceiling this x)"
| "SortedSet_call this Call_iterate = Returned (RList (createSnapshot (s_root this))) this"

fun SortedSet_run :: "'a SortedSet \<Rightarrow> 'a set_call list \<Rightarrow> error + 'a SortedSet" where
  "SortedSet_run this [] = Inr this"
| "SortedSet_run this (c # cs) =
     (case SortedSet_call this c of
        Returned r this' \<Rightarrow> SortedSet_run this' cs
      | Thrown e this' \<Rightarrow> SortedSet_run this' cs
      | Aborted e \<Rightarrow> Inl e)"


text \<open>
  The same for the map, whose values are JavaScript values (\<^verbatim>\<open>get\<close> returns one or
  \<^verbatim>\<open>undefined\<close>).
\<close>

datatype ('k, 'v) map_call =
  MCall_size | MCall_isEmpty | MCall_clear | MCall_get 'k | MCall_has 'k | MCall_set 'k 'v
  | MCall_delete 'k | MCall_min | MCall_max | MCall_deleteMin | MCall_deleteMax
  | MCall_floor 'k | MCall_ceiling 'k | MCall_iterate

datatype ('k, 'v) map_result =
  MUnit | MBool bool | MNat nat | MKey 'k | MValue 'v | MEntries "('k \<times> 'v) list"

fun SortedMap_call ::
  "('k, 'v js) SortedMap \<Rightarrow> ('k, 'v js) map_call \<Rightarrow>
   (('k, 'v js) map_result, ('k, 'v js) SortedMap) outcome" where
  "SortedMap_call this MCall_size = Returned (MNat (SortedMap_size this)) this"
| "SortedMap_call this MCall_isEmpty = Returned (MBool (SortedMap_isEmpty this)) this"
| "SortedMap_call this MCall_clear = Returned MUnit (SortedMap_clear this)"
| "SortedMap_call this (MCall_get x) = Returned (MValue (SortedMap_get this x)) this"
| "SortedMap_call this (MCall_has x) = Returned (MBool (SortedMap_has this x)) this"
| "SortedMap_call this (MCall_set x y) = map_outcome (\<lambda>u. MUnit) id (SortedMap_set this x y)"
| "SortedMap_call this (MCall_delete x) = map_outcome MBool id (SortedMap_delete this x)"
| "SortedMap_call this MCall_min = map_outcome MKey id (SortedMap_min this)"
| "SortedMap_call this MCall_max = map_outcome MKey id (SortedMap_max this)"
| "SortedMap_call this MCall_deleteMin = map_outcome (\<lambda>u. MUnit) id (SortedMap_deleteMin this)"
| "SortedMap_call this MCall_deleteMax = map_outcome (\<lambda>u. MUnit) id (SortedMap_deleteMax this)"
| "SortedMap_call this (MCall_floor x) = map_outcome MKey id (SortedMap_floor this x)"
| "SortedMap_call this (MCall_ceiling x) = map_outcome MKey id (SortedMap_ceiling this x)"
| "SortedMap_call this MCall_iterate = Returned (MEntries (map_createSnapshot (m_root this))) this"

fun SortedMap_run ::
  "('k, 'v js) SortedMap \<Rightarrow> ('k, 'v js) map_call list \<Rightarrow> error + ('k, 'v js) SortedMap" where
  "SortedMap_run this [] = Inr this"
| "SortedMap_run this (c # cs) =
     (case SortedMap_call this c of
        Returned r this' \<Rightarrow> SortedMap_run this' cs
      | Thrown e this' \<Rightarrow> SortedMap_run this' cs
      | Aborted e \<Rightarrow> Inl e)"

text \<open>
  An iterator that is advanced while the container changes: \<open>SortedSet_drain\<close> and
  \<open>SortedMap_drain\<close> call \<^verbatim>\<open>next()\<close> once for each container of the list, the
  container as it is at the time of that call, and collect what is yielded until the
  iterator is done or the list ends.
\<close>

fun SortedSet_drain :: "'a SortedSet list \<Rightarrow> 'a iterator \<Rightarrow> 'a list" where
  "SortedSet_drain [] it = []"
| "SortedSet_drain (this # later) it =
     (case SortedSet_iterator_next this it of
        (None, it') \<Rightarrow> []
      | (Some e, it') \<Rightarrow> e # SortedSet_drain later it')"

fun SortedMap_drain ::
  "('k, 'v) SortedMap list \<Rightarrow> ('k \<times> 'v) iterator \<Rightarrow> ('k \<times> 'v) list" where
  "SortedMap_drain [] it = []"
| "SortedMap_drain (this # later) it =
     (case SortedMap_iterator_next this it of
        (None, it') \<Rightarrow> []
      | (Some e, it') \<Rightarrow> e # SortedMap_drain later it')"

section \<open>Predicates of the proofs\<close>

text \<open>
  Strictly increasing order of a list under the comparator; the black height along the
  left spine; invariants 2 to 4 in one recursive predicate (\<open>llrb\<close>); the same predicate
  without the requirement on the colours of the root and its left child (\<open>almost\<close>: what
  \<^verbatim>\<open>insert\<close> may return for a red node); the trees the deletions are called on
  (\<open>del_pre\<close>: either the root or its left child is red, or the root is black with a
  black left and a red right child, the shape \<^verbatim>\<open>moveRedRight\<close> leaves on the right);
  insertion into an ordered list; and the state of a set between two public calls.
\<close>

abbreviation ordered :: "('a \<Rightarrow> 'a \<Rightarrow> int) \<Rightarrow> 'a list \<Rightarrow> bool" where
  "ordered cmp xs \<equiv> sorted_wrt (\<lambda>a b. cmp a b < 0) xs"

fun bh :: "'a node \<Rightarrow> nat" where
  "bh Null = 0"
| "bh (Node v l r c s) = (if c = RED then bh l else Suc (bh l))"

fun llrb :: "'a node \<Rightarrow> bool" where
  "llrb Null = True"
| "llrb (Node v l r c s) =
     (llrb l \<and> llrb r \<and> bh l = bh r \<and> \<not> isRed r \<and> (c = RED \<longrightarrow> \<not> isRed l))"

fun almost :: "'a node \<Rightarrow> bool" where
  "almost Null = True"
| "almost (Node v l r c s) = (llrb l \<and> llrb r \<and> bh l = bh r \<and> \<not> isRed r)"

fun del_pre :: "'a node \<Rightarrow> bool" where
  "del_pre Null = False"
| "del_pre (Node v l r c s) =
     (llrb l \<and> llrb r \<and> bh l = bh r \<and>
      (if isRed r then c = BLACK \<and> \<not> isRed l
       else (c = RED \<longrightarrow> \<not> isRed l) \<and> (c = RED \<or> isRed l)))"

fun ins_list :: "('a \<Rightarrow> 'a \<Rightarrow> int) \<Rightarrow> 'a \<Rightarrow> 'a list \<Rightarrow> 'a list" where
  "ins_list cmp x [] = [x]"
| "ins_list cmp x (y # ys) =
     (if cmp x y < 0 then x # y # ys
      else if cmp x y > 0 then y # ins_list cmp x ys
      else y # ys)"


definition set_ok :: "'a SortedSet \<Rightarrow> bool" where
  "set_ok this \<longleftrightarrow>
     valid_compareFn (s_compareFn this) \<and> llrb (s_root this) \<and> \<not> isRed (s_root this) \<and>
     ordered (s_compareFn this) (inorder (s_root this))"

text \<open>
  The tree of the keys of a map: every node without its value. The map's functions do
  on it what the set's functions do (the simulation lemmas below), so the results on the
  set carry over to the map.
\<close>

fun keys_tree :: "('k, 'v) mnode \<Rightarrow> 'k node" where
  "keys_tree MNull = Null"
| "keys_tree (MNode k v l r c s) = Node k (keys_tree l) (keys_tree r) c s"

fun keys_result :: "error + ('k, 'v) mnode \<Rightarrow> error + 'k node" where
  "keys_result (Inl e) = Inl e"
| "keys_result (Inr t) = Inr (keys_tree t)"

text \<open>
  The set of the keys of a map, the call on that set that a call on the map corresponds
  to (\<^verbatim>\<open>get\<close> changes as little as \<^verbatim>\<open>has\<close>), and the container a call leaves, or the
  error it aborts with.
\<close>

definition keys_container :: "('k, 'v) SortedMap \<Rightarrow> 'k SortedSet" where
  "keys_container this = \<lparr>s_root = keys_tree (m_root this), s_compareFn = m_compareFn this\<rparr>"

fun keys_call :: "('k, 'v) map_call \<Rightarrow> 'k set_call" where
  "keys_call MCall_size = Call_size"
| "keys_call MCall_isEmpty = Call_isEmpty"
| "keys_call MCall_clear = Call_clear"
| "keys_call (MCall_get x) = Call_has x"
| "keys_call (MCall_has x) = Call_has x"
| "keys_call (MCall_set x y) = Call_add x"
| "keys_call (MCall_delete x) = Call_delete x"
| "keys_call MCall_min = Call_min"
| "keys_call MCall_max = Call_max"
| "keys_call MCall_deleteMin = Call_deleteMin"
| "keys_call MCall_deleteMax = Call_deleteMax"
| "keys_call (MCall_floor x) = Call_floor x"
| "keys_call (MCall_ceiling x) = Call_ceiling x"
| "keys_call MCall_iterate = Call_iterate"

fun next_state :: "('r, 's) outcome \<Rightarrow> error + 's" where
  "next_state (Returned r s) = Inr s"
| "next_state (Thrown e s) = Inr s"
| "next_state (Aborted e) = Inl e"

section \<open>The comparator and the order of the tree\<close>

lemma cmp_gt_iff: "valid_compareFn cmp \<Longrightarrow> (cmp a b > 0) = (cmp b a < 0)"
  unfolding valid_compareFn_def by blast

lemma cmp_ge_iff: "valid_compareFn cmp \<Longrightarrow> (cmp a b \<ge> 0) = (cmp b a \<le> 0)"
  unfolding valid_compareFn_def by (metis not_less)

lemma cmp_eq_sym: "valid_compareFn cmp \<Longrightarrow> cmp a b = 0 \<Longrightarrow> cmp b a = 0"
  unfolding valid_compareFn_def by (metis less_irrefl linorder_neqE_linordered_idom)

lemma cmp_refl: "valid_compareFn cmp \<Longrightarrow> cmp a a = 0"
  unfolding valid_compareFn_def by (metis less_asym linorder_neqE_linordered_idom)

lemma cmp_le_trans: "valid_compareFn cmp \<Longrightarrow> cmp a b \<le> 0 \<Longrightarrow> cmp b c \<le> 0 \<Longrightarrow> cmp a c \<le> 0"
  unfolding valid_compareFn_def by blast

lemma cmp_lt_le_trans:
  assumes V: "valid_compareFn cmp" and ab: "cmp a b < 0" and bc: "cmp b c \<le> 0"
  shows "cmp a c < 0"
proof (rule ccontr)
  assume "\<not> cmp a c < 0"
  then have "cmp c a \<le> 0" using cmp_ge_iff[OF V, of a c] by simp
  with bc have "cmp b a \<le> 0" using cmp_le_trans[OF V] by blast
  then have "cmp a b \<ge> 0" using cmp_ge_iff[OF V, of a b] by simp
  with ab show False by simp
qed

lemma cmp_le_lt_trans:
  assumes V: "valid_compareFn cmp" and ab: "cmp a b \<le> 0" and bc: "cmp b c < 0"
  shows "cmp a c < 0"
proof (rule ccontr)
  assume "\<not> cmp a c < 0"
  then have "cmp c a \<le> 0" using cmp_ge_iff[OF V, of a c] by simp
  with ab have "cmp c b \<le> 0" using cmp_le_trans[OF V] by blast
  then have "cmp b c \<ge> 0" using cmp_ge_iff[OF V, of b c] by simp
  with bc show False by simp
qed

lemma cmp_lt_trans: "valid_compareFn cmp \<Longrightarrow> cmp a b < 0 \<Longrightarrow> cmp b c < 0 \<Longrightarrow> cmp a c < 0"
  using cmp_lt_le_trans[of cmp a b c] by simp

lemma valid_number_compare: "valid_compareFn number_compare"
  unfolding valid_compareFn_def number_compare_def by auto

lemma set_inorder: "set (inorder t) = set_node t"
  by (induction t) auto

lemma ordered_mid:
  assumes V: "valid_compareFn cmp"
  shows "ordered cmp (xs @ v # ys) \<longleftrightarrow>
         ordered cmp xs \<and> ordered cmp ys \<and> (\<forall>x \<in> set xs. cmp x v < 0) \<and> (\<forall>y \<in> set ys. cmp v y < 0)"
  using cmp_lt_trans[OF V] by (auto simp: sorted_wrt_append) 

lemma bst_order_iff:
  assumes V: "valid_compareFn cmp"
  shows "bst_order cmp t \<longleftrightarrow> ordered cmp (inorder t)"
  by (induction t) (auto simp: ordered_mid[OF V] set_inorder cmp_gt_iff[OF V])


lemma has_iff:
  assumes V: "valid_compareFn cmp"
  shows "bst_order cmp t \<Longrightarrow> has cmp t x \<longleftrightarrow> (\<exists>y \<in> set_node t. cmp x y = 0)"
proof (induction t)
  case Null
  then show ?case by simp
next
  case (Node v l r c s)
  have lt: "\<And>y. y \<in> set_node l \<Longrightarrow> cmp y v < 0" using Node.prems by simp
  have gt: "\<And>y. y \<in> set_node r \<Longrightarrow> cmp v y < 0" using Node.prems cmp_gt_iff[OF V] by simp
  show ?case
  proof (cases "cmp x v < 0")
    case True
    have "\<not> (\<exists>y \<in> set_node r. cmp x y = 0)"
      using gt True cmp_lt_trans[OF V] by (metis less_irrefl)
    with True Node show ?thesis by auto
  next
    case False
    show ?thesis
    proof (cases "cmp x v > 0")
      case True
      have "\<not> (\<exists>y \<in> set_node l. cmp x y = 0)"
      proof
        assume "\<exists>y \<in> set_node l. cmp x y = 0"
        then obtain y where y: "y \<in> set_node l" "cmp x y = 0" by blast
        from y(2) have "cmp x y \<le> 0" by simp
        with lt[OF y(1)] have "cmp x v < 0" using cmp_le_lt_trans[OF V] by blast
        with True show False by simp
      qed
      with True False Node show ?thesis by auto
    next
      case F2: False
      with False have "cmp x v = 0" by simp
      with False F2 show ?thesis by auto
    qed
  qed
qed

lemma min_node_correct:
  assumes V: "valid_compareFn cmp"
  shows "bst_order cmp t \<Longrightarrow> t \<noteq> Null \<Longrightarrow>
         \<exists>v l r c s. min_node t = Inr (Node v l r c s) \<and> v \<in> set_node t \<and>
                     (\<forall>y \<in> set_node t. cmp v y \<le> 0)"
proof (induction t)
  case Null
  then show ?case by simp
next
  case (Node v l r c s)
  have gt: "\<And>y. y \<in> set_node r \<Longrightarrow> cmp v y < 0" using Node.prems cmp_gt_iff[OF V] by simp
  show ?case
  proof (cases "l = Null")
    case True
    then show ?thesis using gt cmp_refl[OF V, of v] by (auto simp: less_imp_le)
  next
    case False
    with Node obtain v' l' r' c' s' where m: "min_node l = Inr (Node v' l' r' c' s')"
      "v' \<in> set_node l" "\<forall>y \<in> set_node l. cmp v' y \<le> 0" by auto
    from m(2) Node.prems have v'v: "cmp v' v < 0" by simp
    have "\<forall>y \<in> set_node r. cmp v' y \<le> 0"
      using gt v'v cmp_lt_trans[OF V] by (meson less_imp_le)
    with m v'v False show ?thesis by (auto simp: less_imp_le)
  qed
qed

lemma max_node_correct:
  assumes V: "valid_compareFn cmp"
  shows "bst_order cmp t \<Longrightarrow> t \<noteq> Null \<Longrightarrow>
         \<exists>v l r c s. max_node t = Inr (Node v l r c s) \<and> v \<in> set_node t \<and>
                     (\<forall>y \<in> set_node t. cmp y v \<le> 0)"
proof (induction t)
  case Null
  then show ?case by simp
next
  case (Node v l r c s)
  have gt: "\<And>y. y \<in> set_node r \<Longrightarrow> cmp v y < 0" using Node.prems cmp_gt_iff[OF V] by simp
  have lt: "\<And>y. y \<in> set_node l \<Longrightarrow> cmp y v < 0" using Node.prems by simp
  show ?case
  proof (cases "r = Null")
    case True
    then show ?thesis using lt cmp_refl[OF V, of v] by (auto simp: less_imp_le)
  next
    case False
    with Node obtain v' l' r' c' s' where m: "max_node r = Inr (Node v' l' r' c' s')"
      "v' \<in> set_node r" "\<forall>y \<in> set_node r. cmp y v' \<le> 0" by auto
    from m(2) gt have vv': "cmp v v' < 0" by simp
    have "\<forall>y \<in> set_node l. cmp y v' \<le> 0"
      using lt vv' cmp_lt_trans[OF V] by (meson less_imp_le)
    with m vv' False show ?thesis by (auto simp: less_imp_le)
  qed
qed

lemma floor_node_correct:
  assumes V: "valid_compareFn cmp"
  shows "bst_order cmp t \<Longrightarrow>
         (case floor_node cmp t x of
            Null \<Rightarrow> \<forall>y \<in> set_node t. cmp x y < 0
          | Node v l r c s \<Rightarrow> v \<in> set_node t \<and> cmp v x \<le> 0 \<and>
              (\<forall>y \<in> set_node t. cmp y x \<le> 0 \<longrightarrow> cmp y v \<le> 0))"
proof (induction t)
  case Null
  then show ?case by simp
next
  case (Node v l r c s)
  have gt: "\<And>y. y \<in> set_node r \<Longrightarrow> cmp v y < 0" using Node.prems cmp_gt_iff[OF V] by simp
  have lt: "\<And>y. y \<in> set_node l \<Longrightarrow> cmp y v < 0" using Node.prems by simp
  have bl: "bst_order cmp l" and br: "bst_order cmp r" using Node.prems by simp_all
  consider (eq) "cmp x v = 0" | (less) "cmp x v < 0" | (greater) "cmp x v > 0" by linarith
  then show ?case
  proof cases
    case eq
    have vx: "cmp v x \<le> 0" using cmp_eq_sym[OF V eq] by simp
    have "\<forall>y \<in> set_node (Node v l r c s). cmp y x \<le> 0 \<longrightarrow> cmp y v \<le> 0"
      using eq cmp_le_trans[OF V, of _ x v] by simp
    with eq vx show ?thesis by simp
  next
    case less
    have r_above: "\<And>y. y \<in> set_node r \<Longrightarrow> cmp x y < 0"
      using gt less cmp_lt_trans[OF V] by blast
    have not_le: "\<And>y. cmp x y < 0 \<Longrightarrow> \<not> cmp y x \<le> 0"
      using cmp_gt_iff[OF V] by (metis not_less)
    show ?thesis
    proof (cases "floor_node cmp l x")
      case Null
      with Node.IH(1)[OF bl] have "\<forall>y \<in> set_node l. cmp x y < 0" by simp
      with less r_above Null show ?thesis by auto
    next
      case (Node v' l' r' c' s')
      with Node.IH(1)[OF bl] have f: "v' \<in> set_node l" "cmp v' x \<le> 0"
        "\<forall>y \<in> set_node l. cmp y x \<le> 0 \<longrightarrow> cmp y v' \<le> 0" by simp_all
      with less r_above not_le Node show ?thesis by auto
    qed
  next
    case greater
    then have vx: "cmp v x < 0" using cmp_gt_iff[OF V] by simp
    have l_below: "\<And>y. y \<in> set_node l \<Longrightarrow> cmp y v \<le> 0" using lt by (simp add: less_imp_le)
    have not_le: "\<And>y. cmp x y < 0 \<Longrightarrow> \<not> cmp y x \<le> 0"
      using cmp_gt_iff[OF V] by (metis not_less)
    show ?thesis
    proof (cases "floor_node cmp r x")
      case Null
      with Node.IH(2)[OF br] have "\<forall>y \<in> set_node r. cmp x y < 0" by simp
      with greater vx l_below not_le Null cmp_refl[OF V, of v] show ?thesis by auto
    next
      case (Node v' l' r' c' s')
      with Node.IH(2)[OF br] have f: "v' \<in> set_node r" "cmp v' x \<le> 0"
        "\<forall>y \<in> set_node r. cmp y x \<le> 0 \<longrightarrow> cmp y v' \<le> 0" by simp_all
      from gt[OF f(1)] have vv': "cmp v v' < 0" .
      have "\<And>y. y \<in> set_node l \<Longrightarrow> cmp y v' \<le> 0"
        using lt vv' cmp_lt_trans[OF V] by (meson less_imp_le)
      with f vv' greater Node show ?thesis by (auto simp: less_imp_le)
    qed
  qed
qed

lemma ceiling_node_correct:
  assumes V: "valid_compareFn cmp"
  shows "bst_order cmp t \<Longrightarrow>
         (case ceiling_node cmp t x of
            Null \<Rightarrow> \<forall>y \<in> set_node t. cmp y x < 0
          | Node v l r c s \<Rightarrow> v \<in> set_node t \<and> cmp x v \<le> 0 \<and>
              (\<forall>y \<in> set_node t. cmp x y \<le> 0 \<longrightarrow> cmp v y \<le> 0))"
proof (induction t)
  case Null
  then show ?case by simp
next
  case (Node v l r c s)
  have gt: "\<And>y. y \<in> set_node r \<Longrightarrow> cmp v y < 0" using Node.prems cmp_gt_iff[OF V] by simp
  have lt: "\<And>y. y \<in> set_node l \<Longrightarrow> cmp y v < 0" using Node.prems by simp
  have bl: "bst_order cmp l" and br: "bst_order cmp r" using Node.prems by simp_all
  consider (eq) "cmp x v = 0" | (less) "cmp x v < 0" | (greater) "cmp x v > 0" by linarith
  then show ?case
  proof cases
    case eq
    have "\<forall>y \<in> set_node (Node v l r c s). cmp x y \<le> 0 \<longrightarrow> cmp v y \<le> 0"
      using cmp_eq_sym[OF V eq] cmp_le_trans[OF V, of v x] by simp
    with eq show ?thesis by simp
  next
    case greater
    then have vx: "cmp v x < 0" using cmp_gt_iff[OF V] by simp
    have l_below: "\<And>y. y \<in> set_node l \<Longrightarrow> cmp y x < 0"
      using lt vx cmp_lt_trans[OF V] by blast
    have not_le: "\<And>y. cmp y x < 0 \<Longrightarrow> \<not> cmp x y \<le> 0"
      using cmp_gt_iff[OF V] by (metis not_less)
    show ?thesis
    proof (cases "ceiling_node cmp r x")
      case Null
      with Node.IH(2)[OF br] have "\<forall>y \<in> set_node r. cmp y x < 0" by simp
      with greater vx l_below Null show ?thesis by auto
    next
      case (Node v' l' r' c' s')
      with Node.IH(2)[OF br] have f: "v' \<in> set_node r" "cmp x v' \<le> 0"
        "\<forall>y \<in> set_node r. cmp x y \<le> 0 \<longrightarrow> cmp v' y \<le> 0" by simp_all
      with greater vx l_below not_le Node show ?thesis by auto
    qed
  next
    case less
    have r_above: "\<And>y. y \<in> set_node r \<Longrightarrow> cmp v y \<le> 0" using gt by (simp add: less_imp_le)
    have not_le: "\<And>y. cmp y x < 0 \<Longrightarrow> \<not> cmp x y \<le> 0"
      using cmp_gt_iff[OF V] by (metis not_less)
    show ?thesis
    proof (cases "ceiling_node cmp l x")
      case Null
      with Node.IH(1)[OF bl] have "\<forall>y \<in> set_node l. cmp y x < 0" by simp
      with less r_above not_le Null cmp_refl[OF V, of v] show ?thesis by (auto simp: less_imp_le)
    next
      case (Node v' l' r' c' s')
      with Node.IH(1)[OF bl] have f: "v' \<in> set_node l" "cmp x v' \<le> 0"
        "\<forall>y \<in> set_node l. cmp x y \<le> 0 \<longrightarrow> cmp v' y \<le> 0" by simp_all
      from lt[OF f(1)] have v'v: "cmp v' v < 0" .
      have "\<And>y. y \<in> set_node r \<Longrightarrow> cmp v' y \<le> 0"
        using gt v'v cmp_lt_trans[OF V] by (meson less_imp_le)
      with f v'v less Node show ?thesis by (auto simp: less_imp_le)
    qed
  qed
qed

lemma llrb_almost: "llrb t \<Longrightarrow> almost t"
  by (cases t) auto

lemma llrb_no_red_red: "llrb t \<Longrightarrow> isRed t \<Longrightarrow> \<not> isRed (left t)"
  by (cases t) auto

lemma isRed_Node: "isRed t \<Longrightarrow> \<exists>v l r s. t = Node v l r RED s"
  by (cases t) auto

lemma balance_llrb:
  assumes L: "almost l" and R: "llrb r" and H: "bh l = bh r"
    and X: "\<not> (isRed r \<and> isRed l \<and> isRed (left l))"
    and C: "c = RED \<longrightarrow> \<not> (isRed l \<and> isRed r) \<and> \<not> (isRed l \<and> isRed (left l))"
  shows "\<exists>t'. balance (Node v l r c s) = Inr t' \<and> almost t' \<and> t' \<noteq> Null \<and>
           bh t' = bh (Node v l r c s) \<and>
           inorder t' = inorder l @ v # inorder r \<and>
           (c = BLACK \<longrightarrow> llrb t') \<and>
           (\<not> isRed l \<longrightarrow> \<not> isRed r \<longrightarrow> llrb t' \<and> isRed t' = c) \<and>
           (c = BLACK \<longrightarrow> \<not> (isRed l \<and> isRed r) \<longrightarrow> \<not> (isRed l \<and> isRed (left l)) \<longrightarrow> \<not> isRed t')"
proof (cases "isRed r")
  case rr: True
  then obtain rv rl rrt rs where r: "r = Node rv rl rrt RED rs" using isRed_Node by blast
  show ?thesis
  proof (cases "isRed l")
    case True
    then obtain lv ll lr ls where l: "l = Node lv ll lr RED ls" using isRed_Node by blast
    from X rr True have "\<not> isRed ll" using l by simp
    with L R H C r l show ?thesis by (cases ll) (auto)
  next
    case False
    with L R H C r show ?thesis by (cases l) auto
  qed
next
  case nr: False
  show ?thesis
  proof (cases "isRed l \<and> isRed (left l)")
    case True
    then obtain lv ll lr ls where l: "l = Node lv ll lr RED ls" using isRed_Node by blast
    with True obtain llv lll llr lls where ll: "ll = Node llv lll llr RED lls"
      using isRed_Node[of ll] by auto
    from C True have c: "c = BLACK" by auto
    with L R H nr l ll show ?thesis by (cases r) auto
  next
    case False
    then have "balance (Node v l r c s) = Inr (Node v l r c s)"
      using nr by (cases l) auto
    moreover have "llrb l" using L False by (cases l) auto
    ultimately show ?thesis using L R H nr False C by (cases l) auto
  qed
qed


lemma bh_zero_Null: "llrb t \<Longrightarrow> bh t = 0 \<Longrightarrow> \<not> isRed t \<Longrightarrow> t = Null"
  by (cases t) auto

lemma black_Node: "t \<noteq> Null \<Longrightarrow> \<not> isRed t \<Longrightarrow> \<exists>v l r s. t = Node v l r BLACK s"
  by (cases t) auto

lemma moveRedLeft_ok:
  assumes T: "llrb (Node v l r RED s)" and L: "l \<noteq> Null" and LL: "\<not> isRed (left l)"
  shows "\<exists>w a b c' s'. moveRedLeft (Node v l r RED s) = Inr (Node w a b c' s') \<and>
           llrb a \<and> llrb b \<and> bh a = bh b \<and> a \<noteq> Null \<and> (isRed a \<or> isRed (left a)) \<and>
           (if c' = RED then \<not> isRed a \<and> \<not> isRed b \<and> bh a = bh l
            else isRed a \<and> isRed b \<and> Suc (bh a) = bh l) \<and>
           inorder a @ w # inorder b = inorder l @ v # inorder r \<and>
           (\<exists>ys. inorder a = inorder l @ ys) \<and> (w = v \<or> w \<in> set (inorder r)) \<and>
           count_nodes a < count_nodes (Node v l r RED s)"
proof -
  from T L obtain lv ll lr ls where l: "l = Node lv ll lr BLACK ls"
    using black_Node[of l] by auto
  from T l have "r \<noteq> Null" by auto
  with T obtain rv rl rrt rs where r: "r = Node rv rl rrt BLACK rs"
    using black_Node[of r] by auto
  show ?thesis
  proof (cases "isRed rl")
    case False
    with T LL l r show ?thesis by auto
  next
    case True
    then obtain rlv rll rlr rls where rl: "rl = Node rlv rll rlr RED rls"
      using isRed_Node by blast
    with T LL l r show ?thesis by auto
  qed
qed

lemma moveRedRight_ok:
  assumes T: "llrb (Node v l r RED s)" and R: "r \<noteq> Null" and RL: "\<not> isRed (left r)"
  shows "\<exists>w a b c' s'. moveRedRight (Node v l r RED s) = Inr (Node w a b c' s') \<and>
           llrb a \<and> del_pre b \<and> bh a = bh b \<and>
           (if c' = RED then \<not> isRed a \<and> \<not> isRed b \<and> bh b = bh l \<and> val b = v \<and>
                             w \<in> set (inorder l)
            else isRed a \<and> isRed b \<and> llrb b \<and> w = v \<and> Suc (bh b) = bh l) \<and>
           inorder a @ w # inorder b = inorder l @ v # inorder r \<and>
           (\<exists>ys. inorder b = ys @ inorder r) \<and>
           count_nodes b < count_nodes (Node v l r RED s)"
proof -
  from T R obtain rv rl rrt rs where r: "r = Node rv rl rrt BLACK rs"
    using black_Node[of r] by auto
  from T r have "l \<noteq> Null" by auto
  with T obtain lv ll lr ls where l: "l = Node lv ll lr BLACK ls"
    using black_Node[of l] by auto
  show ?thesis
  proof (cases "isRed ll")
    case False
    with T RL l r show ?thesis by auto
  next
    case True
    then obtain llv lll llr lls where ll: "ll = Node llv lll llr RED lls"
      using isRed_Node by blast
    with T RL l r show ?thesis by auto
  qed
qed


declare balance.simps [simp del] moveRedLeft.simps [simp del] moveRedRight.simps [simp del]

lemma deleteMin_ok:
  "llrb t \<Longrightarrow> t \<noteq> Null \<Longrightarrow> isRed t \<or> isRed (left t) \<Longrightarrow>
   \<exists>t'. deleteMin t = Inr t' \<and> llrb t' \<and> bh t' = bh t \<and> (\<not> isRed t \<longrightarrow> \<not> isRed t') \<and>
        (\<exists>m. inorder t = m # inorder t')"
proof (induction "count_nodes t" arbitrary: t rule: less_induct)
  case less
  from less.prems(2) obtain v l r c s where t: "t = Node v l r c s" by (cases t) auto
  from less.prems(1) t have ll: "llrb l" and lr: "llrb r" and bhlr: "bh l = bh r"
    and nr: "\<not> isRed r" and cl: "c = RED \<Longrightarrow> \<not> isRed l" by auto
  from less.prems(3) t have pre: "c = RED \<or> isRed l" by auto
  show ?case
  proof (cases "l = Null")
    case True
    with pre have c: "c = RED" by auto
    from True bhlr nr lr have "r = Null" using bh_zero_Null[of r] by simp
    with True c t show ?thesis by simp
  next
    case lnn: False
    show ?thesis
    proof (cases "\<not> isRed l \<and> \<not> isRed (left l)")
      case True
      with pre have c: "c = RED" by auto
      from moveRedLeft_ok[of v l r s] less.prems(1) t c lnn True
      obtain w a b c' s' where m: "moveRedLeft (Node v l r RED s) = Inr (Node w a b c' s')"
        and a: "llrb a" "a \<noteq> Null" "isRed a \<or> isRed (left a)"
        and b: "llrb b" "bh a = bh b"
        and col: "if c' = RED then \<not> isRed a \<and> \<not> isRed b \<and> bh a = bh l
                  else isRed a \<and> isRed b \<and> Suc (bh a) = bh l"
        and ino: "inorder a @ w # inorder b = inorder l @ v # inorder r"
        and cnt: "count_nodes a < count_nodes (Node v l r RED s)"
        by blast
      from less.hyps[of a] cnt t c a obtain a' where a': "deleteMin a = Inr a'" "llrb a'"
        "bh a' = bh a" "\<not> isRed a \<longrightarrow> \<not> isRed a'" and ia: "\<exists>m. inorder a = m # inorder a'"
        by auto
      have eq: "deleteMin t = balance (Node w a' b c' s')"
        using t c lnn True m a'(1) by (simp del: moveRedLeft.simps balance.simps)
      have "\<exists>t'. balance (Node w a' b c' s') = Inr t' \<and> almost t' \<and> t' \<noteq> Null \<and>
           bh t' = bh (Node w a' b c' s') \<and>
           inorder t' = inorder a' @ w # inorder b \<and>
           (c' = BLACK \<longrightarrow> llrb t') \<and>
           (\<not> isRed a' \<longrightarrow> \<not> isRed b \<longrightarrow> llrb t' \<and> isRed t' = c') \<and>
           (c' = BLACK \<longrightarrow> \<not> (isRed a' \<and> isRed b) \<longrightarrow> \<not> (isRed a' \<and> isRed (left a')) \<longrightarrow> \<not> isRed t')"
      proof (rule balance_llrb)
        show "almost a'" using a'(2) by (rule llrb_almost)
        show "llrb b" by fact
        show "bh a' = bh b" using a'(3) b(2) by simp
        show "\<not> (isRed b \<and> isRed a' \<and> isRed (left a'))" using llrb_no_red_red[OF a'(2)] by blast
        show "c' = RED \<longrightarrow> \<not> (isRed a' \<and> isRed b) \<and> \<not> (isRed a' \<and> isRed (left a'))"
          using col a'(4) by auto
      qed
      then obtain t' where t': "balance (Node w a' b c' s') = Inr t'"
        "bh t' = bh (Node w a' b c' s')" "inorder t' = inorder a' @ w # inorder b"
        "c' = BLACK \<longrightarrow> llrb t'" "\<not> isRed a' \<longrightarrow> \<not> isRed b \<longrightarrow> llrb t' \<and> isRed t' = c'"
        by blast
      have "llrb t'" using t'(4,5) col a'(4) by (cases c') auto
      moreover have "bh t' = bh t" using t'(2) col a'(3) t c by (cases c') auto
      moreover have "\<exists>m. inorder t = m # inorder t'"
        using t'(3) ia ino t by (metis append_Cons inorder.simps(2))
      ultimately show ?thesis using eq t' t c by auto
    next
      case False
      then have lpre: "isRed l \<or> isRed (left l)" by blast
      from less.hyps[of l] t ll lnn lpre obtain l' where l': "deleteMin l = Inr l'" "llrb l'"
        "bh l' = bh l" "\<not> isRed l \<longrightarrow> \<not> isRed l'" and il: "\<exists>m. inorder l = m # inorder l'"
        by auto
      have eq: "deleteMin t = balance (Node v l' r c s)"
        using t lnn False pre l'(1) by (auto simp del: moveRedLeft.simps balance.simps)
      have "\<exists>t'. balance (Node v l' r c s) = Inr t' \<and> almost t' \<and> t' \<noteq> Null \<and>
           bh t' = bh (Node v l' r c s) \<and>
           inorder t' = inorder l' @ v # inorder r \<and>
           (c = BLACK \<longrightarrow> llrb t') \<and>
           (\<not> isRed l' \<longrightarrow> \<not> isRed r \<longrightarrow> llrb t' \<and> isRed t' = c) \<and>
           (c = BLACK \<longrightarrow> \<not> (isRed l' \<and> isRed r) \<longrightarrow> \<not> (isRed l' \<and> isRed (left l')) \<longrightarrow> \<not> isRed t')"
      proof (rule balance_llrb)
        show "almost l'" using l'(2) by (rule llrb_almost)
        show "llrb r" by fact
        show "bh l' = bh r" using l'(3) bhlr by simp
        show "\<not> (isRed r \<and> isRed l' \<and> isRed (left l'))" using nr by blast
        show "c = RED \<longrightarrow> \<not> (isRed l' \<and> isRed r) \<and> \<not> (isRed l' \<and> isRed (left l'))"
          using nr llrb_no_red_red[OF l'(2)] by auto
      qed
      then obtain t' where t': "balance (Node v l' r c s) = Inr t'"
        "bh t' = bh (Node v l' r c s)" "inorder t' = inorder l' @ v # inorder r"
        "c = BLACK \<longrightarrow> llrb t'" "\<not> isRed l' \<longrightarrow> \<not> isRed r \<longrightarrow> llrb t' \<and> isRed t' = c"
        "c = BLACK \<longrightarrow> \<not> (isRed l' \<and> isRed r) \<longrightarrow> \<not> (isRed l' \<and> isRed (left l')) \<longrightarrow> \<not> isRed t'"
        by blast
      have "llrb t'" using t'(4,5) cl l'(4) nr by (cases c) auto
      moreover have "bh t' = bh t" using t'(2) l'(3) t by auto
      moreover have "\<not> isRed t \<longrightarrow> \<not> isRed t'"
        using t'(6) t nr llrb_no_red_red[OF l'(2)] by auto
      moreover have "\<exists>m. inorder t = m # inorder t'"
        using t'(3) il t by auto
      ultimately show ?thesis using eq t' by auto
    qed
  qed
qed

lemma del_pre_red: "llrb t \<Longrightarrow> isRed t \<Longrightarrow> del_pre t"
  by (cases t) auto

lemma del_pre_left_red: "llrb t \<Longrightarrow> isRed (left t) \<Longrightarrow> t \<noteq> Null \<Longrightarrow> del_pre t"
  by (cases t) auto

lemma deleteMax_ok:
  "del_pre t \<Longrightarrow>
   \<exists>t'. deleteMax t = Inr t' \<and> llrb t' \<and> bh t' = bh t \<and> (\<not> isRed t \<longrightarrow> \<not> isRed t') \<and>
        (\<exists>m. inorder t = inorder t' @ [m])"
proof (induction "count_nodes t" arbitrary: t rule: less_induct)
  case less
  from less.prems obtain v l r c s where t: "t = Node v l r c s" by (cases t) auto
  from less.prems t have ll: "llrb l" and lr: "llrb r" and bhlr: "bh l = bh r" by auto
  show ?case
  proof (cases "isRed l")
    case True
    then obtain lv lle lri ls where l: "l = Node lv lle lri RED ls" using isRed_Node by blast
    from less.prems t True have c: "c = BLACK" and nr: "\<not> isRed r" by (auto split: if_splits)
    define r1 where "r1 = Node v lri r RED (size_of lri + size_of r + 1)"
    have rot: "rotateRight t = Inr (Node lv lle r1 BLACK s)" using t l c r1_def by simp
    have pre1: "del_pre r1" using r1_def ll lr bhlr l nr by auto
    have cnt: "count_nodes r1 < count_nodes t" using r1_def t l by simp
    from less.hyps[OF cnt pre1] obtain r1' where r1': "deleteMax r1 = Inr r1'" "llrb r1'"
      "bh r1' = bh r1" and i1: "\<exists>m. inorder r1 = inorder r1' @ [m]" by blast
    have "deleteMax t = (case deleteMax r1 of Inl e \<Rightarrow> Inl e
                          | Inr r3 \<Rightarrow> balance (Node lv lle r3 BLACK s))"
      unfolding t
      by (subst deleteMax.simps)
         (simp del: deleteMax.simps moveRedRight.simps balance.simps add: l c r1_def)
    then have eq: "deleteMax t = balance (Node lv lle r1' BLACK s)"
      using r1'(1) by (simp del: balance.simps)
    have A: "almost lle" using ll l by (auto intro: llrb_almost)
    have H: "bh lle = bh r1'" using r1'(3) r1_def ll l by auto
    have X: "\<not> (isRed r1' \<and> isRed lle \<and> isRed (left lle))" using ll l by auto
    have C: "BLACK = RED \<longrightarrow> \<not> (isRed lle \<and> isRed r1') \<and> \<not> (isRed lle \<and> isRed (left lle))" by simp
    from balance_llrb[where v=lv and s=s and c=BLACK, OF A r1'(2) H X C] obtain t' where
      t': "balance (Node lv lle r1' BLACK s) = Inr t'" "bh t' = bh (Node lv lle r1' BLACK s)"
      "inorder t' = inorder lle @ lv # inorder r1'" "llrb t'"
      "\<not> (isRed lle \<and> isRed r1') \<longrightarrow> \<not> (isRed lle \<and> isRed (left lle)) \<longrightarrow> \<not> isRed t'"
      by auto
    have "bh t' = bh t" using t'(2) t l c by simp
    moreover have "\<not> isRed t'" using t'(5) ll l by auto
    moreover have "\<exists>m. inorder t = inorder t' @ [m]"
      using t'(3) i1 t l r1_def by auto
    ultimately show ?thesis using eq t' by auto
  next
    case nl: False
    show ?thesis
    proof (cases "r = Null")
      case True
      with less.prems t nl have c: "c = RED" by auto
      from True bhlr nl ll have "l = Null" using bh_zero_Null[of l] by simp
      with True c t show ?thesis by simp
    next
      case rnn: False
      show ?thesis
      proof (cases "\<not> isRed r \<and> \<not> isRed (left r)")
        case True
        with less.prems t nl have c: "c = RED" by auto
        have T: "llrb (Node v l r RED s)" using ll lr bhlr True nl by simp
        from moveRedRight_ok[OF T rnn] True
        obtain w a b c' s' where m: "moveRedRight (Node v l r RED s) = Inr (Node w a b c' s')"
          and a: "llrb a" and b: "del_pre b" "bh a = bh b"
          and col: "if c' = RED then \<not> isRed a \<and> \<not> isRed b \<and> bh b = bh l
                    else isRed a \<and> isRed b \<and> Suc (bh b) = bh l"
          and ino: "inorder a @ w # inorder b = inorder l @ v # inorder r"
          and cnt: "count_nodes b < count_nodes (Node v l r RED s)"
          by auto
        from less.hyps[of b] cnt t c b obtain b' where b': "deleteMax b = Inr b'" "llrb b'"
          "bh b' = bh b" "\<not> isRed b \<longrightarrow> \<not> isRed b'" and ib: "\<exists>m. inorder b = inorder b' @ [m]"
          by auto
        have eq: "deleteMax t = balance (Node w a b' c' s')"
          unfolding t using c nl rnn True m b'(1)
          by (subst deleteMax.simps)
             (simp del: moveRedRight.simps balance.simps deleteMax.simps)
        have H: "bh a = bh b'" using b'(3) b(2) by simp
        have X: "\<not> (isRed b' \<and> isRed a \<and> isRed (left a))" using llrb_no_red_red[OF a] by blast
        have C: "c' = RED \<longrightarrow> \<not> (isRed a \<and> isRed b') \<and> \<not> (isRed a \<and> isRed (left a))"
          using col by auto
        from balance_llrb[where v=w and s=s' and c=c', OF llrb_almost[OF a] b'(2) H X C] obtain t' where
          t': "balance (Node w a b' c' s') = Inr t'" "bh t' = bh (Node w a b' c' s')"
          "inorder t' = inorder a @ w # inorder b'" "c' = BLACK \<longrightarrow> llrb t'"
          "\<not> isRed a \<longrightarrow> \<not> isRed b' \<longrightarrow> llrb t' \<and> isRed t' = c'"
          by auto
        have "llrb t'" using t'(4,5) col b'(4) by (cases c') auto
        moreover have "bh t' = bh t" using t'(2) col b'(3) b(2) t c by (cases c') auto
        moreover have "\<exists>m. inorder t = inorder t' @ [m]"
        proof -
          from ib obtain m where "inorder b = inorder b' @ [m]" by blast
          with ino t'(3) t have "inorder t = inorder t' @ [m]" by simp
          then show ?thesis by blast
        qed
        ultimately show ?thesis using eq t' t c by auto
      next
        case False
        then have rpre: "isRed r \<or> isRed (left r)" by blast
        have pr: "del_pre r" using rpre lr rnn del_pre_red del_pre_left_red by blast
        have cnt: "count_nodes r < count_nodes t" using t by simp
        from less.hyps[OF cnt pr] obtain r' where r': "deleteMax r = Inr r'" "llrb r'"
          "bh r' = bh r" "\<not> isRed r \<longrightarrow> \<not> isRed r'" and ir: "\<exists>m. inorder r = inorder r' @ [m]"
          by auto
        have eq: "deleteMax t = balance (Node v l r' c s)"
          unfolding t using nl rnn False less.prems[unfolded t] r'(1)
          by (subst deleteMax.simps)
             (auto simp del: moveRedRight.simps balance.simps deleteMax.simps split: if_splits)
        have H: "bh l = bh r'" using r'(3) bhlr by simp
        have X: "\<not> (isRed r' \<and> isRed l \<and> isRed (left l))" using nl by blast
        have C: "c = RED \<longrightarrow> \<not> (isRed l \<and> isRed r') \<and> \<not> (isRed l \<and> isRed (left l))"
          using nl by auto
        from balance_llrb[where v=v and s=s and c=c, OF llrb_almost[OF ll] r'(2) H X C] obtain t' where
          t': "balance (Node v l r' c s) = Inr t'" "bh t' = bh (Node v l r' c s)"
          "inorder t' = inorder l @ v # inorder r'" "c = BLACK \<longrightarrow> llrb t'"
          "\<not> isRed l \<longrightarrow> \<not> isRed r' \<longrightarrow> llrb t' \<and> isRed t' = c"
          "c = BLACK \<longrightarrow> \<not> (isRed l \<and> isRed r') \<longrightarrow> \<not> (isRed l \<and> isRed (left l)) \<longrightarrow> \<not> isRed t'"
          by auto
        have cr: "c = RED \<Longrightarrow> \<not> isRed r" using less.prems t by (auto split: if_splits)
        have "llrb t'" using t'(4,5) nl r'(4) cr by (cases c) auto
        moreover have "bh t' = bh t" using t'(2) t by auto
        moreover have "\<not> isRed t \<longrightarrow> \<not> isRed t'" using t'(6) t nl by auto
        moreover have "\<exists>m. inorder t = inorder t' @ [m]"
          using t'(3) ir t by auto
        ultimately show ?thesis using eq t' by auto
      qed
    qed
  qed
qed

lemma balance_after_delete:
  assumes A: "llrb a" and B: "llrb b" and H: "bh a = bh b"
    and C: "c = RED \<longrightarrow> \<not> isRed a \<and> \<not> isRed b"
  shows "\<exists>t'. balance (Node w a b c s) = Inr t' \<and> llrb t' \<and>
           bh t' = bh (Node w a b c s) \<and>
           inorder t' = inorder a @ w # inorder b \<and>
           (c = BLACK \<longrightarrow> \<not> (isRed a \<and> isRed b) \<longrightarrow> \<not> isRed t')"
proof -
  have X: "\<not> (isRed b \<and> isRed a \<and> isRed (left a))" using llrb_no_red_red[OF A] by blast
  have C': "c = RED \<longrightarrow> \<not> (isRed a \<and> isRed b) \<and> \<not> (isRed a \<and> isRed (left a))"
    using C by blast
  from balance_llrb[where v=w and s=s and c=c, OF llrb_almost[OF A] B H X C'] obtain t' where
    t': "balance (Node w a b c s) = Inr t'" "bh t' = bh (Node w a b c s)"
    "inorder t' = inorder a @ w # inorder b" "c = BLACK \<longrightarrow> llrb t'"
    "\<not> isRed a \<longrightarrow> \<not> isRed b \<longrightarrow> llrb t' \<and> isRed t' = c"
    "c = BLACK \<longrightarrow> \<not> (isRed a \<and> isRed b) \<longrightarrow> \<not> (isRed a \<and> isRed (left a)) \<longrightarrow> \<not> isRed t'"
    by blast
  have "llrb t'" using t'(4,5) C by (cases c) auto
  moreover have "c = BLACK \<longrightarrow> \<not> (isRed a \<and> isRed b) \<longrightarrow> \<not> isRed t'"
    using t'(6) llrb_no_red_red[OF A] by blast
  ultimately show ?thesis using t' by blast
qed

lemma min_node_hd:
  "t \<noteq> Null \<Longrightarrow> \<exists>mv ml mr mc ms rest. min_node t = Inr (Node mv ml mr mc ms) \<and> inorder t = mv # rest"
  by (induction t) auto

lemma filter_left:
  assumes V: "valid_compareFn cmp" and O: "ordered cmp (xs @ w # ys)" and X: "cmp x w < 0"
  shows "filter (\<lambda>y. cmp x y \<noteq> 0) (xs @ w # ys) = filter (\<lambda>y. cmp x y \<noteq> 0) xs @ w # ys"
    and "(\<exists>y \<in> set (xs @ w # ys). cmp x y = 0) \<Longrightarrow> (\<exists>y \<in> set xs. cmp x y = 0)"
proof -
  have "\<forall>y \<in> set ys. cmp w y < 0" using O by (simp add: sorted_wrt_append)
  then have *: "\<forall>y \<in> set (w # ys). cmp x y < 0" using X cmp_lt_trans[OF V] by auto
  then have "filter (\<lambda>y. cmp x y \<noteq> 0) (w # ys) = w # ys" by (auto simp: filter_id_conv)
  then show "filter (\<lambda>y. cmp x y \<noteq> 0) (xs @ w # ys) = filter (\<lambda>y. cmp x y \<noteq> 0) xs @ w # ys"
    by simp
  show "(\<exists>y \<in> set (xs @ w # ys). cmp x y = 0) \<Longrightarrow> (\<exists>y \<in> set xs. cmp x y = 0)"
    using * by auto
qed

lemma filter_right:
  assumes V: "valid_compareFn cmp" and O: "ordered cmp (xs @ w # ys)" and X: "cmp x w > 0"
  shows "filter (\<lambda>y. cmp x y \<noteq> 0) (xs @ w # ys) = xs @ w # filter (\<lambda>y. cmp x y \<noteq> 0) ys"
    and "(\<exists>y \<in> set (xs @ w # ys). cmp x y = 0) \<Longrightarrow> (\<exists>y \<in> set ys. cmp x y = 0)"
proof -
  have wx: "cmp w x < 0" using X cmp_gt_iff[OF V] by simp
  have "\<forall>y \<in> set xs. cmp y w < 0" using O by (simp add: sorted_wrt_append)
  then have "\<forall>y \<in> set xs. cmp y x < 0" using wx cmp_lt_trans[OF V] by blast
  then have *: "\<forall>y \<in> set (xs @ [w]). cmp x y > 0" using X cmp_gt_iff[OF V] by auto
  then have "filter (\<lambda>y. cmp x y \<noteq> 0) (xs @ [w]) = xs @ [w]" by (auto simp: filter_id_conv)
  then have "filter (\<lambda>y. cmp x y \<noteq> 0) ((xs @ [w]) @ ys) = (xs @ [w]) @ filter (\<lambda>y. cmp x y \<noteq> 0) ys"
    by (simp only: filter_append)
  then show "filter (\<lambda>y. cmp x y \<noteq> 0) (xs @ w # ys) = xs @ w # filter (\<lambda>y. cmp x y \<noteq> 0) ys"
    by simp
  show "(\<exists>y \<in> set (xs @ w # ys). cmp x y = 0) \<Longrightarrow> (\<exists>y \<in> set ys. cmp x y = 0)"
    using * by auto
qed

lemma filter_at:
  assumes V: "valid_compareFn cmp" and O: "ordered cmp (xs @ w # ys)" and X: "cmp x w = 0"
  shows "filter (\<lambda>y. cmp x y \<noteq> 0) (xs @ w # ys) = xs @ ys"
proof -
  have xw: "cmp x w \<le> 0" and wx: "cmp w x \<le> 0" using X cmp_eq_sym[OF V X] by simp_all
  have "\<forall>y \<in> set ys. cmp w y < 0" using O by (simp add: sorted_wrt_append)
  then have "\<forall>y \<in> set ys. cmp x y < 0" using xw cmp_le_lt_trans[OF V] by blast
  then have 1: "filter (\<lambda>y. cmp x y \<noteq> 0) ys = ys" by (auto simp: filter_id_conv)
  have "\<forall>y \<in> set xs. cmp y w < 0" using O by (simp add: sorted_wrt_append)
  then have "\<forall>y \<in> set xs. cmp y x < 0" using wx cmp_lt_le_trans[OF V] by blast
  then have "\<forall>y \<in> set xs. cmp x y > 0" using cmp_gt_iff[OF V] by auto
  then have 2: "filter (\<lambda>y. cmp x y \<noteq> 0) xs = xs" by (auto simp: filter_id_conv)
  show ?thesis using 1 2 X by simp
qed

lemma llrb_right_black: "llrb t \<Longrightarrow> t \<noteq> Null \<Longrightarrow> \<not> isRed (right t)"
  by (cases t) auto

lemma remove_node_ok:
  assumes V: "valid_compareFn cmp"
  shows "ordered cmp (inorder t) \<Longrightarrow> \<exists>y \<in> set (inorder t). cmp x y = 0 \<Longrightarrow> del_pre t \<Longrightarrow>
         (isRed (right t) \<longrightarrow> \<not> cmp x (val t) < 0) \<Longrightarrow>
         \<exists>t'. remove_node cmp t x = Inr t' \<and> llrb t' \<and> bh t' = bh t \<and>
              (\<not> isRed t \<longrightarrow> \<not> isRed t') \<and>
              inorder t' = filter (\<lambda>y. cmp x y \<noteq> 0) (inorder t)"
proof (induction "count_nodes t" arbitrary: t rule: less_induct)
  case less
  note O = less.prems(1) and M = less.prems(2) and D = less.prems(3) and S = less.prems(4)
  from D obtain v l r c s where t: "t = Node v l r c s" by (cases t) auto
  from D t have ll: "llrb l" and lr: "llrb r" and bhlr: "bh l = bh r" by auto
  let ?P = "\<lambda>y. cmp x y \<noteq> 0"
  have Ot: "ordered cmp (inorder l @ v # inorder r)" using O t by simp
  have Mt: "\<exists>y \<in> set (inorder l @ v # inorder r). cmp x y = 0" using M t by simp
  have Ol: "ordered cmp (inorder l)" and Or: "ordered cmp (inorder r)"
    using Ot by (simp_all add: sorted_wrt_append)
  show ?case
  proof (cases "cmp x v < 0")
    case xv: True
    from S t xv have nr: "\<not> isRed r" by auto
    from D t nr have cl: "c = RED \<longrightarrow> \<not> isRed l" and pre: "c = RED \<or> isRed l" by auto
    from filter_left[OF V Ot xv] Mt have Ml: "\<exists>y \<in> set (inorder l). cmp x y = 0"
      and Fl: "filter ?P (inorder l @ v # inorder r) = filter ?P (inorder l) @ v # inorder r"
      by blast+
    from Ml have lnn: "l \<noteq> Null" by auto
    show ?thesis
    proof (cases "\<not> isRed l \<and> \<not> isRed (left l)")
      case True
      with pre have c: "c = RED" by auto
      have T: "llrb (Node v l r RED s)" using ll lr bhlr nr True by simp
      from moveRedLeft_ok[OF T lnn] True
      obtain w a b c' s' where m: "moveRedLeft (Node v l r RED s) = Inr (Node w a b c' s')"
        and a: "llrb a" "a \<noteq> Null" "isRed a \<or> isRed (left a)"
        and b: "llrb b" "bh a = bh b"
        and col: "if c' = RED then \<not> isRed a \<and> \<not> isRed b \<and> bh a = bh l
                  else isRed a \<and> isRed b \<and> Suc (bh a) = bh l"
        and ino: "inorder a @ w # inorder b = inorder l @ v # inorder r"
        and w: "w = v \<or> w \<in> set (inorder r)"
        and cnt: "count_nodes a < count_nodes (Node v l r RED s)"
        by blast
      have "\<forall>y \<in> set (inorder r). cmp v y < 0" using Ot by (simp add: sorted_wrt_append)
      with w xv have xw: "cmp x w < 0" using cmp_lt_trans[OF V] by blast
      have Oab: "ordered cmp (inorder a @ w # inorder b)" using Ot ino by simp
      from filter_left[OF V Oab xw] Mt ino have Ma: "\<exists>y \<in> set (inorder a). cmp x y = 0"
        and Fa: "filter ?P (inorder a @ w # inorder b) = filter ?P (inorder a) @ w # inorder b"
        by simp_all
      have Oa: "ordered cmp (inorder a)" using Oab by (simp add: sorted_wrt_append)
      have Da: "del_pre a" using a del_pre_red del_pre_left_red by blast
      have Sa: "isRed (right a) \<longrightarrow> \<not> cmp x (val a) < 0" using llrb_right_black[OF a(1,2)] by simp
      have cnt': "count_nodes a < count_nodes t" using cnt t by simp
      from less.hyps[OF cnt' Oa Ma Da Sa] obtain a' where a': "remove_node cmp a x = Inr a'"
        "llrb a'" "bh a' = bh a" "\<not> isRed a \<longrightarrow> \<not> isRed a'"
        "inorder a' = filter ?P (inorder a)" by blast
      have eq: "remove_node cmp t x = balance (Node w a' b c' s')"
        unfolding t using c xv lnn True m a'(1)
        by (subst remove_node.simps) (simp del: remove_node.simps)
      have H: "bh a' = bh b" using a'(3) b(2) by simp
      have C: "c' = RED \<longrightarrow> \<not> isRed a' \<and> \<not> isRed b" using col a'(4) by auto
      from balance_after_delete[OF a'(2) b(1) H C, of w s'] obtain t' where
        t': "balance (Node w a' b c' s') = Inr t'" "llrb t'" "bh t' = bh (Node w a' b c' s')"
        "inorder t' = inorder a' @ w # inorder b" by blast
      have "bh t' = bh t" using t'(3) col a'(3) t c by (cases c') auto
      moreover have "inorder t' = filter ?P (inorder t)"
        using t'(4) a'(5) Fa ino t by simp
      ultimately show ?thesis using eq t' t c by auto
    next
      case False
      then have lpre: "isRed l \<or> isRed (left l)" by blast
      have Dl: "del_pre l" using lpre ll lnn del_pre_red del_pre_left_red by blast
      have Sl: "isRed (right l) \<longrightarrow> \<not> cmp x (val l) < 0" using llrb_right_black[OF ll lnn] by simp
      have cnt: "count_nodes l < count_nodes t" using t by simp
      from less.hyps[OF cnt Ol Ml Dl Sl] obtain l' where l': "remove_node cmp l x = Inr l'"
        "llrb l'" "bh l' = bh l" "\<not> isRed l \<longrightarrow> \<not> isRed l'"
        "inorder l' = filter ?P (inorder l)" by blast
      have eq: "remove_node cmp t x = balance (Node v l' r c s)"
        unfolding t using xv lnn False l'(1)
        by (subst remove_node.simps) (auto simp del: remove_node.simps)
      have H: "bh l' = bh r" using l'(3) bhlr by simp
      have C: "c = RED \<longrightarrow> \<not> isRed l' \<and> \<not> isRed r" using cl l'(4) nr by auto
      from balance_after_delete[OF l'(2) lr H C, of v s] obtain t' where
        t': "balance (Node v l' r c s) = Inr t'" "llrb t'" "bh t' = bh (Node v l' r c s)"
        "inorder t' = inorder l' @ v # inorder r"
        "c = BLACK \<longrightarrow> \<not> (isRed l' \<and> isRed r) \<longrightarrow> \<not> isRed t'" by blast
      have "bh t' = bh t" using t'(3) l'(3) t by auto
      moreover have "\<not> isRed t \<longrightarrow> \<not> isRed t'" using t'(5) t nr by auto
      moreover have "inorder t' = filter ?P (inorder t)"
        using t'(4) l'(5) Fl t by simp
      ultimately show ?thesis using eq t' by auto
    qed
  next
    case nxv: False
    then have vx: "cmp v x \<le> 0" using cmp_ge_iff[OF V, of x v] by simp
    show ?thesis
    proof (cases "isRed l")
      case True
      then obtain lv lle lri ls where l: "l = Node lv lle lri RED ls" using isRed_Node by blast
      from D t True have c: "c = BLACK" and nr: "\<not> isRed r" by (auto split: if_splits)
      define r1 where "r1 = Node v lri r RED (size_of lri + size_of r + 1)"
      have pre1: "del_pre r1" using r1_def ll lr bhlr l nr by auto
      have S1: "isRed (right r1) \<longrightarrow> \<not> cmp x (val r1) < 0" using r1_def nr by simp
      have cnt: "count_nodes r1 < count_nodes t" using r1_def t l by simp
      have O1: "ordered cmp (inorder lle @ lv # inorder r1)" using Ot l r1_def by simp
      have M1t: "\<exists>y \<in> set (inorder lle @ lv # inorder r1). cmp x y = 0" using Mt l r1_def by simp
      have "cmp lv v < 0" using Ot l by (simp add: sorted_wrt_append)
      with vx have "cmp lv x < 0" using cmp_lt_le_trans[OF V] by blast
      then have xlv: "cmp x lv > 0" using cmp_gt_iff[OF V] by simp
      from filter_right[OF V O1 xlv] M1t have M1: "\<exists>y \<in> set (inorder r1). cmp x y = 0"
        and F1: "filter ?P (inorder lle @ lv # inorder r1) = inorder lle @ lv # filter ?P (inorder r1)"
        by blast+
      have Or1: "ordered cmp (inorder r1)" using O1 by (simp add: sorted_wrt_append)
      from less.hyps[OF cnt Or1 M1 pre1 S1] obtain r1' where r1': "remove_node cmp r1 x = Inr r1'"
        "llrb r1'" "bh r1' = bh r1" "inorder r1' = filter ?P (inorder r1)" by blast
      have "remove_node cmp t x = (case remove_node cmp r1 x of Inl e \<Rightarrow> Inl e
                          | Inr r3 \<Rightarrow> balance (Node lv lle r3 BLACK s))"
        unfolding t using nxv xlv
        by (subst remove_node.simps) (simp del: remove_node.simps add: l c r1_def)
      then have eq: "remove_node cmp t x = balance (Node lv lle r1' BLACK s)"
        using r1'(1) by simp
      have A: "llrb lle" using ll l by simp
      have H: "bh lle = bh r1'" using r1'(3) r1_def ll l by auto
      have C: "BLACK = RED \<longrightarrow> \<not> isRed lle \<and> \<not> isRed r1'" by simp
      from balance_after_delete[OF A r1'(2) H C, of lv s] obtain t' where
        t': "balance (Node lv lle r1' BLACK s) = Inr t'" "llrb t'"
        "bh t' = bh (Node lv lle r1' BLACK s)"
        "inorder t' = inorder lle @ lv # inorder r1'"
        "\<not> (isRed lle \<and> isRed r1') \<longrightarrow> \<not> isRed t'" by auto
      have "bh t' = bh t" using t'(3) t l c by simp
      moreover have "\<not> isRed t'" using t'(5) ll l by auto
      moreover have "inorder t' = filter ?P (inorder t)"
        using t'(4) r1'(4) F1 t l r1_def by simp
      ultimately show ?thesis using eq t' by auto
    next
      case nl: False
      show ?thesis
      proof (cases "r = Null")
        case True
        with D t nl have c: "c = RED" by auto
        from True bhlr nl ll have "l = Null" using bh_zero_Null[of l] by simp
        with True c t M show ?thesis by simp
      next
        case rnn: False
        show ?thesis
        proof (cases "\<not> isRed r \<and> \<not> isRed (left r)")
          case True
          with D t nl have c: "c = RED" by auto
          have T: "llrb (Node v l r RED s)" using ll lr bhlr True nl by simp
          from moveRedRight_ok[OF T rnn] True
          obtain w a b c' s' where m: "moveRedRight (Node v l r RED s) = Inr (Node w a b c' s')"
            and a: "llrb a" and b: "del_pre b" "bh a = bh b"
            and col: "if c' = RED then \<not> isRed a \<and> \<not> isRed b \<and> bh b = bh l \<and> val b = v \<and>
                             w \<in> set (inorder l)
                      else isRed a \<and> isRed b \<and> llrb b \<and> w = v \<and> Suc (bh b) = bh l"
            and ino: "inorder a @ w # inorder b = inorder l @ v # inorder r"
            and cnt: "count_nodes b < count_nodes (Node v l r RED s)"
            by auto
          have cnt': "count_nodes b < count_nodes t" using cnt t by simp
          have Oab: "ordered cmp (inorder a @ w # inorder b)" using Ot ino by simp
          have Ob: "ordered cmp (inorder b)" using Oab by (simp add: sorted_wrt_append)
          have lb: "c' = BLACK \<Longrightarrow> llrb b" using col by simp
          have bnn: "b \<noteq> Null" using b(1) by auto
          have red_w: "c' = RED \<Longrightarrow> cmp x w > 0"
          proof -
            assume "c' = RED"
            with col have "w \<in> set (inorder l)" by simp
            then have "cmp w v < 0" using Ot by (simp add: sorted_wrt_append)
            with vx have "cmp w x < 0" using cmp_lt_le_trans[OF V] by blast
            then show "cmp x w > 0" using cmp_gt_iff[OF V] by simp
          qed
          show ?thesis
          proof (cases "cmp x w = 0")
            case xw: True
            with red_w have c': "c' = BLACK" by auto
            with col have rb: "isRed b" and ra: "isRed a" and wv: "w = v" by auto
            from min_node_hd[OF bnn] obtain mv ml mr mc ms rest where
              mn: "min_node b = Inr (Node mv ml mr mc ms)" and ib: "inorder b = mv # rest" by blast
            from deleteMin_ok[OF lb[OF c'] bnn] rb obtain b' where b': "deleteMin b = Inr b'" "llrb b'"
              "bh b' = bh b" and ib': "\<exists>m. inorder b = m # inorder b'" by blast
            from ib ib' have ibb: "inorder b = mv # inorder b'" by auto
            have eq: "remove_node cmp t x = balance (Node mv a b' c' s')"
              unfolding t using c nxv nl rnn True m xw mn b'(1)
              by (subst remove_node.simps) (simp del: remove_node.simps)
            have H: "bh a = bh b'" using b'(3) b(2) by simp
            have C: "c' = RED \<longrightarrow> \<not> isRed a \<and> \<not> isRed b'" using c' by simp
            from balance_after_delete[OF a b'(2) H C, of mv s'] obtain t' where
              t': "balance (Node mv a b' c' s') = Inr t'" "llrb t'"
              "bh t' = bh (Node mv a b' c' s')"
              "inorder t' = inorder a @ mv # inorder b'" by blast
            have "bh t' = bh t" using t'(3) col b'(3) b(2) t c c' by auto
            moreover have "inorder t' = filter ?P (inorder t)"
            proof -
              have e1: "filter ?P (inorder a @ w # inorder b) = inorder a @ inorder b"
                by (rule filter_at[OF V Oab xw])
              have e2: "inorder a @ w # inorder b = inorder t" using ino t by simp
              show ?thesis unfolding e2[symmetric] e1 using t'(4) ibb by simp
            qed
            ultimately show ?thesis using eq t' t c by auto
          next
            case nxw: False
            have xw: "cmp x w > 0"
            proof (cases c')
              case True
              then show ?thesis using red_w by simp
            next
              case False
              with col have "w = v" by simp
              with nxw nxv show ?thesis by simp
            qed
            from filter_right[OF V Oab xw] Mt ino have Mb: "\<exists>y \<in> set (inorder b). cmp x y = 0"
              and Fb: "filter ?P (inorder a @ w # inorder b) = inorder a @ w # filter ?P (inorder b)"
              by simp_all
            have Sb: "isRed (right b) \<longrightarrow> \<not> cmp x (val b) < 0"
            proof (cases c')
              case True
              with col nxv show ?thesis by simp
            next
              case False
              then show ?thesis using llrb_right_black[OF lb bnn] by simp
            qed
            from less.hyps[OF cnt' Ob Mb b(1) Sb] obtain b' where b': "remove_node cmp b x = Inr b'"
              "llrb b'" "bh b' = bh b" "\<not> isRed b \<longrightarrow> \<not> isRed b'"
              "inorder b' = filter ?P (inorder b)" by blast
            have eq: "remove_node cmp t x = balance (Node w a b' c' s')"
              unfolding t using c nxv nl rnn True m nxw b'(1)
              by (subst remove_node.simps) (simp del: remove_node.simps)
            have H: "bh a = bh b'" using b'(3) b(2) by simp
            have C: "c' = RED \<longrightarrow> \<not> isRed a \<and> \<not> isRed b'" using col b'(4) by auto
            from balance_after_delete[OF a b'(2) H C, of w s'] obtain t' where
              t': "balance (Node w a b' c' s') = Inr t'" "llrb t'"
              "bh t' = bh (Node w a b' c' s')"
              "inorder t' = inorder a @ w # inorder b'" by blast
            have "bh t' = bh t" using t'(3) col b'(3) b(2) t c by (cases c') auto
            moreover have "inorder t' = filter ?P (inorder t)"
              using t'(4) b'(5) Fb ino t by simp
            ultimately show ?thesis using eq t' t c by auto
          qed
        next
          case False
          then have rpre: "isRed r \<or> isRed (left r)" by blast
          have cr: "c = RED \<longrightarrow> \<not> isRed r" using D t by (auto split: if_splits)
          show ?thesis
          proof (cases "cmp x v = 0")
            case xv0: True
            from min_node_hd[OF rnn] obtain mv ml mr mc ms rest where
              mn: "min_node r = Inr (Node mv ml mr mc ms)" and ir: "inorder r = mv # rest" by blast
            from deleteMin_ok[OF lr rnn rpre] obtain r' where r': "deleteMin r = Inr r'" "llrb r'"
              "bh r' = bh r" "\<not> isRed r \<longrightarrow> \<not> isRed r'"
              and ir': "\<exists>m. inorder r = m # inorder r'" by blast
            from ir ir' have irr: "inorder r = mv # inorder r'" by auto
            have eq: "remove_node cmp t x = balance (Node mv l r' c s)"
              unfolding t using nxv nl rnn False xv0 mn r'(1)
              by (subst remove_node.simps) (auto simp del: remove_node.simps)
            have H: "bh l = bh r'" using r'(3) bhlr by simp
            have C: "c = RED \<longrightarrow> \<not> isRed l \<and> \<not> isRed r'" using nl cr r'(4) by auto
            from balance_after_delete[OF ll r'(2) H C, of mv s] obtain t' where
              t': "balance (Node mv l r' c s) = Inr t'" "llrb t'"
              "bh t' = bh (Node mv l r' c s)"
              "inorder t' = inorder l @ mv # inorder r'"
              "c = BLACK \<longrightarrow> \<not> (isRed l \<and> isRed r') \<longrightarrow> \<not> isRed t'" by blast
            have "bh t' = bh t" using t'(3) t by auto
            moreover have "\<not> isRed t \<longrightarrow> \<not> isRed t'" using t'(5) t nl by auto
            moreover have "inorder t' = filter ?P (inorder t)"
            proof -
              have e1: "filter ?P (inorder l @ v # inorder r) = inorder l @ inorder r"
                by (rule filter_at[OF V Ot xv0])
              have e2: "inorder l @ v # inorder r = inorder t" using t by simp
              show ?thesis unfolding e2[symmetric] e1 using t'(4) irr by simp
            qed
            ultimately show ?thesis using eq t' by auto
          next
            case nxv0: False
            with nxv have xv: "cmp x v > 0" by simp
            from filter_right[OF V Ot xv] Mt have Mr: "\<exists>y \<in> set (inorder r). cmp x y = 0"
              and Fr: "filter ?P (inorder l @ v # inorder r) = inorder l @ v # filter ?P (inorder r)"
              by blast+
            have Dr: "del_pre r" using rpre lr rnn del_pre_red del_pre_left_red by blast
            have Sr: "isRed (right r) \<longrightarrow> \<not> cmp x (val r) < 0"
              using llrb_right_black[OF lr rnn] by simp
            have cnt: "count_nodes r < count_nodes t" using t by simp
            from less.hyps[OF cnt Or Mr Dr Sr] obtain r' where r': "remove_node cmp r x = Inr r'"
              "llrb r'" "bh r' = bh r" "\<not> isRed r \<longrightarrow> \<not> isRed r'"
              "inorder r' = filter ?P (inorder r)" by blast
            have eq: "remove_node cmp t x = balance (Node v l r' c s)"
              unfolding t using nxv nl rnn False nxv0 r'(1)
              by (subst remove_node.simps) (auto simp del: remove_node.simps)
            have H: "bh l = bh r'" using r'(3) bhlr by simp
            have C: "c = RED \<longrightarrow> \<not> isRed l \<and> \<not> isRed r'" using nl cr r'(4) by auto
            from balance_after_delete[OF ll r'(2) H C, of v s] obtain t' where
              t': "balance (Node v l r' c s) = Inr t'" "llrb t'"
              "bh t' = bh (Node v l r' c s)"
              "inorder t' = inorder l @ v # inorder r'"
              "c = BLACK \<longrightarrow> \<not> (isRed l \<and> isRed r') \<longrightarrow> \<not> isRed t'" by blast
            have "bh t' = bh t" using t'(3) t by auto
            moreover have "\<not> isRed t \<longrightarrow> \<not> isRed t'" using t'(5) t nl by auto
            moreover have "inorder t' = filter ?P (inorder t)"
              using t'(4) r'(5) Fr t by simp
            ultimately show ?thesis using eq t' by auto
          qed
        qed
      qed
    qed
  qed
qed

lemma set_ins_list: "set (ins_list cmp x xs) \<subseteq> insert x (set xs)"
  by (induction xs) auto

lemma ins_list_head:
  assumes V: "valid_compareFn cmp"
  shows "ordered cmp (w # ys) \<Longrightarrow> cmp x w < 0 \<Longrightarrow> ins_list cmp x (w # ys) = x # w # ys"
  by simp

lemma ordered_ins_list:
  assumes V: "valid_compareFn cmp"
  shows "ordered cmp xs \<Longrightarrow> ordered cmp (ins_list cmp x xs)"
proof (induction xs)
  case Nil
  then show ?case by simp
next
  case (Cons y ys)
  show ?case
  proof (cases "cmp x y < 0")
    case True
    then have "\<forall>z \<in> set ys. cmp x z < 0" using Cons.prems cmp_lt_trans[OF V] by auto
    with True Cons.prems show ?thesis by simp
  next
    case False
    show ?thesis
    proof (cases "cmp x y > 0")
      case True
      then have yx: "cmp y x < 0" using cmp_gt_iff[OF V] by simp
      have "\<forall>z \<in> set (ins_list cmp x ys). cmp y z < 0"
        using set_ins_list[of cmp x ys] yx Cons.prems by auto
      with True False Cons show ?thesis by simp
    next
      case F: False
      with False Cons.prems show ?thesis by simp
    qed
  qed
qed

lemma ins_list_mid:
  assumes V: "valid_compareFn cmp"
  shows "ordered cmp (xs @ w # ys) \<Longrightarrow>
         ins_list cmp x (xs @ w # ys) =
           (if cmp x w < 0 then ins_list cmp x xs @ w # ys
            else if cmp x w > 0 then xs @ w # ins_list cmp x ys
            else xs @ w # ys)"
proof (induction xs)
  case Nil
  then show ?case by simp
next
  case (Cons y xs)
  from Cons.prems have yw: "cmp y w < 0" and O: "ordered cmp (xs @ w # ys)" by auto
  show ?case
  proof (cases "cmp x w < 0")
    case True
    with Cons.IH[OF O] show ?thesis by simp
  next
    case False
    then have "cmp w x \<le> 0" using cmp_ge_iff[OF V, of x w] by simp
    with yw have "cmp y x < 0" using cmp_lt_le_trans[OF V] by blast
    then have "cmp x y > 0" using cmp_gt_iff[OF V] by simp
    with False Cons.IH[OF O] show ?thesis by simp
  qed
qed

lemma insert_node_ok:
  assumes V: "valid_compareFn cmp"
  shows "llrb t \<Longrightarrow> ordered cmp (inorder t) \<Longrightarrow>
         \<exists>t'. insert_node cmp t x = Inr t' \<and> almost t' \<and> t' \<noteq> Null \<and> bh t' = bh t \<and>
              (\<not> isRed t \<longrightarrow> llrb t') \<and> inorder t' = ins_list cmp x (inorder t)"
proof (induction t)
  case Null
  then show ?case by simp
next
  case (Node v l r c s)
  from Node.prems have ll: "llrb l" and lr: "llrb r" and bhlr: "bh l = bh r"
    and nr: "\<not> isRed r" and cl: "c = RED \<longrightarrow> \<not> isRed l" by auto
  have Ot: "ordered cmp (inorder l @ v # inorder r)" using Node.prems by simp
  have Ol: "ordered cmp (inorder l)" and Or: "ordered cmp (inorder r)"
    using Ot by (simp_all add: sorted_wrt_append)
  note I = ins_list_mid[OF V Ot, of x]
  show ?case
  proof (cases "cmp x v < 0")
    case True
    from Node.IH(1)[OF ll Ol] obtain l' where l': "insert_node cmp l x = Inr l'" "almost l'"
      "bh l' = bh l" "\<not> isRed l \<longrightarrow> llrb l'" "inorder l' = ins_list cmp x (inorder l)" by blast
    have eq: "insert_node cmp (Node v l r c s) x = balance (Node v l' r c s)"
      using True l'(1) by simp
    have H: "bh l' = bh r" using l'(3) bhlr by simp
    have X: "\<not> (isRed r \<and> isRed l' \<and> isRed (left l'))" using nr by simp
    have C: "c = RED \<longrightarrow> \<not> (isRed l' \<and> isRed r) \<and> \<not> (isRed l' \<and> isRed (left l'))"
      using nr cl l'(4) llrb_no_red_red[of l'] by blast
    from balance_llrb[where v=v and s=s and c=c, OF l'(2) lr H X C] obtain t' where
      t': "balance (Node v l' r c s) = Inr t'" "almost t'" "t' \<noteq> Null"
      "bh t' = bh (Node v l' r c s)" "inorder t' = inorder l' @ v # inorder r"
      "c = BLACK \<longrightarrow> llrb t'" by blast
    have "bh t' = bh (Node v l r c s)" using t'(4) l'(3) by simp
    moreover have "inorder t' = ins_list cmp x (inorder (Node v l r c s))"
      using t'(5) l'(5) I True by simp
    ultimately show ?thesis using eq t' by auto
  next
    case nlt: False
    show ?thesis
    proof (cases "cmp x v > 0")
      case True
      from Node.IH(2)[OF lr Or] nr obtain r' where r': "insert_node cmp r x = Inr r'"
        "bh r' = bh r" "llrb r'" "inorder r' = ins_list cmp x (inorder r)" by blast
      have eq: "insert_node cmp (Node v l r c s) x = balance (Node v l r' c s)"
        using True nlt r'(1) by simp
      have H: "bh l = bh r'" using r'(2) bhlr by simp
      have X: "\<not> (isRed r' \<and> isRed l \<and> isRed (left l))" using llrb_no_red_red[OF ll] by blast
      have C: "c = RED \<longrightarrow> \<not> (isRed l \<and> isRed r') \<and> \<not> (isRed l \<and> isRed (left l))"
        using cl by blast
      from balance_llrb[where v=v and s=s and c=c, OF llrb_almost[OF ll] r'(3) H X C] obtain t' where
        t': "balance (Node v l r' c s) = Inr t'" "almost t'" "t' \<noteq> Null"
        "bh t' = bh (Node v l r' c s)" "inorder t' = inorder l @ v # inorder r'"
        "c = BLACK \<longrightarrow> llrb t'" by blast
      have "bh t' = bh (Node v l r c s)" using t'(4) by simp
      moreover have "inorder t' = ins_list cmp x (inorder (Node v l r c s))"
        using t'(5) r'(4) I True nlt by simp
      ultimately show ?thesis using eq t' by auto
    next
      case False
      have eq: "insert_node cmp (Node v l r c s) x = balance (Node v l r c s)"
        using False nlt by simp
      have X: "\<not> (isRed r \<and> isRed l \<and> isRed (left l))" using nr by blast
      have C: "c = RED \<longrightarrow> \<not> (isRed l \<and> isRed r) \<and> \<not> (isRed l \<and> isRed (left l))"
        using cl by blast
      from balance_llrb[where v=v and s=s and c=c, OF llrb_almost[OF ll] lr bhlr X C] obtain t' where
        t': "balance (Node v l r c s) = Inr t'" "almost t'" "t' \<noteq> Null"
        "bh t' = bh (Node v l r c s)" "inorder t' = inorder l @ v # inorder r"
        "c = BLACK \<longrightarrow> llrb t'" by blast
      have "inorder t' = ins_list cmp x (inorder (Node v l r c s))"
        using t'(5) I False nlt by simp
      then show ?thesis using eq t' by auto
    qed
  qed
qed

lemma balance_noop:
  "\<not> isRed r \<Longrightarrow> \<not> (isRed l \<and> isRed (left l)) \<Longrightarrow> balance (Node v l r c s) = Inr (Node v l r c s)"
  by (cases l) (auto simp: balance.simps)

lemma insert_node_present:
  "llrb t \<Longrightarrow> has cmp t x \<Longrightarrow> insert_node cmp t x = Inr t"
proof (induction t)
  case Null
  then show ?case by simp
next
  case (Node v l r c s)
  have B: "balance (Node v l r c s) = Inr (Node v l r c s)"
    using Node.prems(1) llrb_no_red_red[of l] by (intro balance_noop) auto
  show ?case
  proof (cases "cmp x v < 0")
    case True
    with Node have "insert_node cmp l x = Inr l" by simp
    with True B show ?thesis by simp
  next
    case nlt: False
    show ?thesis
    proof (cases "cmp x v > 0")
      case True
      with nlt Node have "insert_node cmp r x = Inr r" by simp
      with True nlt B show ?thesis by simp
    next
      case False
      with nlt B show ?thesis by simp
    qed
  qed
qed

lemma bh_in_black_counts: "bh t \<in> set (black_counts t)"
  by (induction t) auto

lemma black_balanced_iff: "black_balanced t \<longleftrightarrow> set (black_counts t) = {bh t}"
  unfolding black_balanced_def using bh_in_black_counts[of t] by auto

lemma all_equal_union:
  assumes "a \<in> A" and "b \<in> B"
  shows "(\<forall>n \<in> A \<union> B. \<forall>m \<in> A \<union> B. n = m) \<longleftrightarrow>
         (\<forall>n \<in> A. \<forall>m \<in> A. n = m) \<and> (\<forall>n \<in> B. \<forall>m \<in> B. n = m) \<and> a = b"
proof
  assume L: "\<forall>n \<in> A \<union> B. \<forall>m \<in> A \<union> B. n = m"
  have "a \<in> A \<union> B" and "b \<in> A \<union> B" using assms by simp_all
  with L have "a = b" by blast
  moreover from L have "\<forall>n \<in> A. \<forall>m \<in> A. n = m" by simp
  moreover from L have "\<forall>n \<in> B. \<forall>m \<in> B. n = m" by simp
  ultimately show "(\<forall>n \<in> A. \<forall>m \<in> A. n = m) \<and> (\<forall>n \<in> B. \<forall>m \<in> B. n = m) \<and> a = b"
    by simp
next
  assume R: "(\<forall>n \<in> A. \<forall>m \<in> A. n = m) \<and> (\<forall>n \<in> B. \<forall>m \<in> B. n = m) \<and> a = b"
  have A: "\<And>n. n \<in> A \<Longrightarrow> n = a" using R assms(1) by blast
  have B: "\<And>n. n \<in> B \<Longrightarrow> n = a" using R assms(2) by blast
  have "\<And>n. n \<in> A \<union> B \<Longrightarrow> n = a" using A B by blast
  then show "\<forall>n \<in> A \<union> B. \<forall>m \<in> A \<union> B. n = m" by metis
qed

lemma black_balanced_Node:
  "black_balanced (Node v l r c s) \<longleftrightarrow> black_balanced l \<and> black_balanced r \<and> bh l = bh r"
proof (cases c)
  case True
  then have S: "set (black_counts (Node v l r c s)) = set (black_counts l) \<union> set (black_counts r)"
    by simp
  show ?thesis
    unfolding black_balanced_def S
    by (rule all_equal_union[OF bh_in_black_counts bh_in_black_counts])
next
  case False
  then have S: "set (black_counts (Node v l r c s)) =
                Suc ` (set (black_counts l) \<union> set (black_counts r))"
    by (simp add: image_Un)
  have "(\<forall>n \<in> Suc ` (set (black_counts l) \<union> set (black_counts r)).
         \<forall>m \<in> Suc ` (set (black_counts l) \<union> set (black_counts r)). n = m) \<longleftrightarrow>
        (\<forall>n \<in> set (black_counts l) \<union> set (black_counts r).
         \<forall>m \<in> set (black_counts l) \<union> set (black_counts r). n = m)"
    by simp
  then show ?thesis
    unfolding black_balanced_def S
    using all_equal_union[OF bh_in_black_counts[of l] bh_in_black_counts[of r]] by simp
qed

lemma black_balanced_Null: "black_balanced Null"
  by (simp add: black_balanced_def)

lemma llrb_iff: "llrb t \<longleftrightarrow> no_red_right t \<and> no_red_red t \<and> black_balanced t"
  by (induction t) (auto simp: black_balanced_Node black_balanced_Null)

lemma set_ok_new: "valid_compareFn cmp \<Longrightarrow> set_ok (SortedSet_new cmp)"
  by (simp add: set_ok_def SortedSet_new_def)

lemma almost_blacken: "almost t \<Longrightarrow> llrb (blacken t) \<and> \<not> isRed (blacken t) \<and> inorder (blacken t) = inorder t"
  by (cases t) auto

lemma SortedSet_add_ok:
  assumes "set_ok this"
  shows "\<exists>this'. SortedSet_add this x = Returned () this' \<and> set_ok this' \<and>
           s_compareFn this' = s_compareFn this \<and>
           inorder (s_root this') = ins_list (s_compareFn this) x (inorder (s_root this))"
proof -
  from assms have V: "valid_compareFn (s_compareFn this)" and L: "llrb (s_root this)"
    and O: "ordered (s_compareFn this) (inorder (s_root this))" by (simp_all add: set_ok_def)
  from insert_node_ok[OF V L O, of x] obtain t' where
    t': "insert_node (s_compareFn this) (s_root this) x = Inr t'" "almost t'" "t' \<noteq> Null"
    "inorder t' = ins_list (s_compareFn this) x (inorder (s_root this))" by blast
  from t'(3) obtain v l r c s where n: "t' = Node v l r c s" by (cases t') auto
  have eq: "SortedSet_add this x = Returned () (this\<lparr>s_root := blacken t'\<rparr>)"
    using t'(1) n by (simp add: SortedSet_add_def)
  have "set_ok (this\<lparr>s_root := blacken t'\<rparr>)"
    using almost_blacken[OF t'(2)] V t'(4) ordered_ins_list[OF V O, of x] by (simp add: set_ok_def)
  with eq t'(4) almost_blacken[OF t'(2)] show ?thesis by simp
qed




lemma deletion_root:
  assumes "llrb (Node v l r c s)" and "\<not> isRed (Node v l r c s)"
  defines "t0 \<equiv> (if \<not> isRed l \<and> \<not> isRed r then Node v l r RED s else Node v l r c s)"
  shows "llrb t0" and "del_pre t0" and "\<not> isRed (right t0)" and "t0 \<noteq> Null"
    and "isRed t0 \<or> isRed (left t0)" and "inorder t0 = inorder l @ v # inorder r"
  using assms by (auto simp: t0_def)

lemma max_node_last:
  "t \<noteq> Null \<Longrightarrow> \<exists>mv ml mr mc ms rest. max_node t = Inr (Node mv ml mr mc ms) \<and> inorder t = rest @ [mv]"
proof (induction t)
  case Null
  then show ?case by simp
next
  case (Node v l r c s)
  show ?case
  proof (cases "r = Null")
    case True
    then show ?thesis by simp
  next
    case False
    with Node.IH(2) obtain mv ml mr mc ms rest where
      "max_node r = Inr (Node mv ml mr mc ms)" "inorder r = rest @ [mv]" by blast
    with False show ?thesis by simp
  qed
qed

lemma SortedSet_delete_ok:
  assumes "set_ok this"
  shows "\<exists>this'. SortedSet_delete this x = Returned (SortedSet_has this x) this' \<and> set_ok this' \<and>
           s_compareFn this' = s_compareFn this \<and>
           inorder (s_root this') =
             filter (\<lambda>y. s_compareFn this x y \<noteq> 0) (inorder (s_root this))"
proof -
  let ?cmp = "s_compareFn this"
  from assms have V: "valid_compareFn ?cmp" and L: "llrb (s_root this)"
    and B: "\<not> isRed (s_root this)"
    and O: "ordered ?cmp (inorder (s_root this))" by (simp_all add: set_ok_def)
  have BO: "bst_order ?cmp (s_root this)" using O bst_order_iff[OF V] by blast
  show ?thesis
  proof (cases "SortedSet_has this x")
    case False
    then have "\<not> (\<exists>y \<in> set (inorder (s_root this)). ?cmp x y = 0)"
      using has_iff[OF V BO, of x] by (simp add: SortedSet_has_def set_inorder)
    then have "filter (\<lambda>y. ?cmp x y \<noteq> 0) (inorder (s_root this)) = inorder (s_root this)"
      by (auto simp: filter_id_conv)
    with False assms show ?thesis by (simp add: SortedSet_delete_def)
  next
    case True
    then have M: "\<exists>y \<in> set (inorder (s_root this)). ?cmp x y = 0"
      using has_iff[OF V BO, of x] by (simp add: SortedSet_has_def set_inorder)
    then obtain v l r c s where n: "s_root this = Node v l r c s" by (cases "s_root this") auto
    define t0 where "t0 = (if \<not> isRed l \<and> \<not> isRed r then Node v l r RED s else Node v l r c s)"
    note R = deletion_root[OF L[unfolded n] B[unfolded n], folded t0_def]
    have O0: "ordered ?cmp (inorder t0)" and M0: "\<exists>y \<in> set (inorder t0). ?cmp x y = 0"
      using O M n R(6) by simp_all
    have S0: "isRed (right t0) \<longrightarrow> \<not> ?cmp x (val t0) < 0" using R(3) by simp
    from remove_node_ok[OF V O0 M0 R(2) S0] obtain t' where
      t': "remove_node ?cmp t0 x = Inr t'" "llrb t'"
      "inorder t' = filter (\<lambda>y. ?cmp x y \<noteq> 0) (inorder t0)" by blast
    have eq: "SortedSet_delete this x = Returned True (this\<lparr>s_root := blacken t'\<rparr>)"
      using True t'(1) n by (simp add: SortedSet_delete_def t0_def)
    have I: "inorder (blacken t') = filter (\<lambda>y. ?cmp x y \<noteq> 0) (inorder (s_root this))"
      using almost_blacken[OF llrb_almost[OF t'(2)]] t'(3) R(6) n by simp
    have "ordered ?cmp (filter (\<lambda>y. ?cmp x y \<noteq> 0) (inorder (s_root this)))"
      using O by (rule sorted_wrt_filter)
    then have "set_ok (this\<lparr>s_root := blacken t'\<rparr>)"
      using almost_blacken[OF llrb_almost[OF t'(2)]] V I by (simp add: set_ok_def)
    with eq I True show ?thesis by simp
  qed
qed

lemma SortedSet_deleteMin_ok:
  assumes "set_ok this"
  shows "(SortedSet_isEmpty this \<and>
          SortedSet_deleteMin this = Thrown (NoSuchElementError ''Sorted set is empty'') this) \<or>
         (\<exists>this' m. SortedSet_deleteMin this = Returned () this' \<and> set_ok this' \<and>
            s_compareFn this' = s_compareFn this \<and>
            inorder (s_root this) = m # inorder (s_root this'))"
proof (cases "s_root this")
  case Null
  then show ?thesis by (simp add: SortedSet_deleteMin_def SortedSet_isEmpty_def)
next
  case n: (Node v l r c s)
  let ?cmp = "s_compareFn this"
  from assms have V: "valid_compareFn ?cmp" and L: "llrb (s_root this)"
    and B: "\<not> isRed (s_root this)"
    and O: "ordered ?cmp (inorder (s_root this))" by (simp_all add: set_ok_def)
  define t0 where "t0 = (if \<not> isRed l \<and> \<not> isRed r then Node v l r RED s else Node v l r c s)"
  note R = deletion_root[OF L[unfolded n] B[unfolded n], folded t0_def]
  from deleteMin_ok[OF R(1) R(4) R(5)] obtain t' m where
    t': "deleteMin t0 = Inr t'" "llrb t'" "inorder t0 = m # inorder t'" by blast
  have eq: "SortedSet_deleteMin this = Returned () (this\<lparr>s_root := blacken t'\<rparr>)"
    using t'(1) n by (simp add: SortedSet_deleteMin_def SortedSet_isEmpty_def t0_def)
  have I: "inorder (s_root this) = m # inorder (blacken t')"
    using almost_blacken[OF llrb_almost[OF t'(2)]] t'(3) R(6) n by simp
  have "ordered ?cmp (inorder (blacken t'))" using O I by simp
  then have "set_ok (this\<lparr>s_root := blacken t'\<rparr>)"
    using almost_blacken[OF llrb_almost[OF t'(2)]] V by (simp add: set_ok_def)
  with eq I show ?thesis by auto
qed

lemma SortedSet_deleteMax_ok:
  assumes "set_ok this"
  shows "(SortedSet_isEmpty this \<and>
          SortedSet_deleteMax this = Thrown (NoSuchElementError ''Sorted set is empty'') this) \<or>
         (\<exists>this' m. SortedSet_deleteMax this = Returned () this' \<and> set_ok this' \<and>
            s_compareFn this' = s_compareFn this \<and>
            inorder (s_root this) = inorder (s_root this') @ [m])"
proof (cases "s_root this")
  case Null
  then show ?thesis by (simp add: SortedSet_deleteMax_def SortedSet_isEmpty_def)
next
  case n: (Node v l r c s)
  let ?cmp = "s_compareFn this"
  from assms have V: "valid_compareFn ?cmp" and L: "llrb (s_root this)"
    and B: "\<not> isRed (s_root this)"
    and O: "ordered ?cmp (inorder (s_root this))" by (simp_all add: set_ok_def)
  define t0 where "t0 = (if \<not> isRed l \<and> \<not> isRed r then Node v l r RED s else Node v l r c s)"
  note R = deletion_root[OF L[unfolded n] B[unfolded n], folded t0_def]
  from deleteMax_ok[OF R(2)] obtain t' m where
    t': "deleteMax t0 = Inr t'" "llrb t'" "inorder t0 = inorder t' @ [m]" by blast
  have eq: "SortedSet_deleteMax this = Returned () (this\<lparr>s_root := blacken t'\<rparr>)"
    using t'(1) n by (simp add: SortedSet_deleteMax_def SortedSet_isEmpty_def t0_def)
  have I: "inorder (s_root this) = inorder (blacken t') @ [m]"
    using almost_blacken[OF llrb_almost[OF t'(2)]] t'(3) R(6) n by simp
  have "ordered ?cmp (inorder (blacken t'))" using O I by (simp add: sorted_wrt_append)
  then have "set_ok (this\<lparr>s_root := blacken t'\<rparr>)"
    using almost_blacken[OF llrb_almost[OF t'(2)]] V by (simp add: set_ok_def)
  with eq I show ?thesis by auto
qed

lemma SortedSet_call_ok:
  assumes "set_ok this"
  shows "\<exists>this'. ((\<exists>r. SortedSet_call this c = Returned r this') \<or>
                  (\<exists>e. SortedSet_call this c = Thrown e this')) \<and>
                 set_ok this' \<and> s_compareFn this' = s_compareFn this"
proof (cases c)
  case Call_clear
  with assms show ?thesis by (simp add: SortedSet_clear_def set_ok_def)
next
  case (Call_add x)
  with SortedSet_add_ok[OF assms, of x] show ?thesis by auto
next
  case (Call_delete x)
  with SortedSet_delete_ok[OF assms, of x] show ?thesis by auto
next
  case Call_min
  show ?thesis
  proof (cases "s_root this = Null")
    case True
    with Call_min assms show ?thesis by (simp add: SortedSet_min_def SortedSet_isEmpty_def)
  next
    case False
    from min_node_hd[OF False] Call_min False assms show ?thesis
      by (auto simp: SortedSet_min_def SortedSet_isEmpty_def)
  qed
next
  case Call_max
  show ?thesis
  proof (cases "s_root this = Null")
    case True
    with Call_max assms show ?thesis by (simp add: SortedSet_max_def SortedSet_isEmpty_def)
  next
    case False
    from max_node_last[OF False] Call_max False assms show ?thesis
      by (auto simp: SortedSet_max_def SortedSet_isEmpty_def)
  qed
next
  case Call_deleteMin
  with SortedSet_deleteMin_ok[OF assms] assms show ?thesis by auto
next
  case Call_deleteMax
  with SortedSet_deleteMax_ok[OF assms] assms show ?thesis by auto
next
  case (Call_floor x)
  with assms show ?thesis
    by (auto simp: SortedSet_floor_def split: node.splits)
next
  case (Call_ceiling x)
  with assms show ?thesis
    by (auto simp: SortedSet_ceiling_def split: node.splits)
qed (use assms in auto)

lemma SortedSet_run_ok:
  "set_ok this \<Longrightarrow> \<exists>this'. SortedSet_run this cs = Inr this' \<and> set_ok this' \<and>
                    s_compareFn this' = s_compareFn this"
proof (induction cs arbitrary: this)
  case Nil
  then show ?case by simp
next
  case (Cons c cs)
  from SortedSet_call_ok[OF Cons.prems, of c] obtain this1 where
    1: "(\<exists>r. SortedSet_call this c = Returned r this1) \<or> (\<exists>e. SortedSet_call this c = Thrown e this1)"
    and ok: "set_ok this1" and cmp: "s_compareFn this1 = s_compareFn this" by blast
  from Cons.IH[OF ok] obtain this' where
    2: "SortedSet_run this1 cs = Inr this'" "set_ok this'" "s_compareFn this' = s_compareFn this1"
    by blast
  from 1 2 cmp show ?case by auto
qed

section \<open>The states a set can reach\<close>

lemma ins_list_mem:
  assumes V: "valid_compareFn cmp"
  shows "\<exists>y \<in> set (ins_list cmp x xs). cmp x y = 0"
proof (induction xs)
  case Nil
  then show ?case using cmp_refl[OF V] by simp
next
  case (Cons y ys)
  show ?case
  proof (cases "cmp x y < 0")
    case True
    then show ?thesis using cmp_refl[OF V] by simp
  next
    case False
    show ?thesis
    proof (cases "cmp x y > 0")
      case True
      with False Cons show ?thesis by simp
    next
      case F: False
      with False have "cmp x y = 0" by simp
      with False F show ?thesis by simp
    qed
  qed
qed

lemma set_ok_has:
  assumes "set_ok this"
  shows "SortedSet_has this x \<longleftrightarrow> (\<exists>y \<in> set (inorder (s_root this)). s_compareFn this x y = 0)"
proof -
  from assms have V: "valid_compareFn (s_compareFn this)"
    and O: "ordered (s_compareFn this) (inorder (s_root this))" by (simp_all add: set_ok_def)
  have "bst_order (s_compareFn this) (s_root this)" using O bst_order_iff[OF V] by blast
  from has_iff[OF V this, of x] show ?thesis by (simp add: SortedSet_has_def set_inorder)
qed

lemma SortedSet_add_present:
  assumes "set_ok this" and "SortedSet_has this v"
  shows "SortedSet_add this v = Returned () this"
proof -
  from assms(1) have L: "llrb (s_root this)" and B: "\<not> isRed (s_root this)"
    by (simp_all add: set_ok_def)
  from assms(2) have H: "has (s_compareFn this) (s_root this) v" by (simp add: SortedSet_has_def)
  from H obtain w l r c s where n: "s_root this = Node w l r c s" by (cases "s_root this") auto
  with B have "c = BLACK" by simp
  with insert_node_present[OF L H] n show ?thesis by (simp add: SortedSet_add_def)
qed

lemma SortedSet_invariants_1_to_5:
  assumes V: "valid_compareFn compareFn"
    and R: "SortedSet_run (SortedSet_new compareFn) calls = Inr this"
  shows "bst_order compareFn (s_root this) \<and> no_red_right (s_root this) \<and>
         no_red_red (s_root this) \<and> black_balanced (s_root this) \<and> root_black (s_root this)"
proof -
  from SortedSet_run_ok[OF set_ok_new[OF V], of calls] R have ok: "set_ok this"
    and c: "s_compareFn this = compareFn" by (auto simp: SortedSet_new_def)
  from ok c show ?thesis
    using bst_order_iff[OF V, of "s_root this"] llrb_iff[of "s_root this"]
    by (simp add: set_ok_def root_black_def)
qed

section \<open>Snapshots, and the map as a tree of keys\<close>

lemma dfs_inorder: "dfs t acc = acc @ inorder t"
  by (induction t arbitrary: acc) auto

lemma createSnapshot_inorder: "createSnapshot t = inorder t"
  by (simp add: createSnapshot_def dfs_inorder)

lemma map_dfs_entries: "map_dfs t acc = acc @ entries t"
  by (induction t arbitrary: acc) auto

lemma map_createSnapshot_entries: "map_createSnapshot t = entries t"
  by (simp add: map_createSnapshot_def map_dfs_entries)

lemma ordered_unique:
  assumes V: "valid_compareFn cmp"
  shows "ordered cmp xs \<Longrightarrow> a \<in> set xs \<Longrightarrow> b \<in> set xs \<Longrightarrow> cmp a b = 0 \<Longrightarrow> a = b"
proof (induction xs)
  case Nil
  then show ?case by simp
next
  case (Cons z zs)
  have lt: "\<And>y. y \<in> set zs \<Longrightarrow> cmp z y < 0" using Cons.prems(1) by simp
  show ?case
  proof (cases "a = z")
    case az: True
    show ?thesis
    proof (cases "b = z")
      case True
      with az show ?thesis by simp
    next
      case False
      with Cons.prems(3) have "b \<in> set zs" by simp
      from lt[OF this] az Cons.prems(4) show ?thesis by simp
    qed
  next
    case naz: False
    with Cons.prems(2) have a: "a \<in> set zs" by simp
    show ?thesis
    proof (cases "b = z")
      case True
      from lt[OF a] True have "cmp b a < 0" by simp
      then have "cmp a b > 0" using cmp_gt_iff[OF V] by simp
      with Cons.prems(4) show ?thesis by simp
    next
      case False
      with Cons.prems(3) have "b \<in> set zs" by simp
      with Cons.IH a Cons.prems(1,4) show ?thesis by simp
    qed
  qed
qed

lemma drain_yielding:
  "SortedMap_drain later (Yielding xs) = take (length later) xs"
proof (induction later arbitrary: xs)
  case Nil
  then show ?case by simp
next
  case (Cons this later)
  then show ?case by (cases xs) auto
qed

lemma drain_suspended:
  "SortedMap_drain (this # later) Suspended =
     take (Suc (length later)) (map_createSnapshot (m_root this))"
  by (cases "map_createSnapshot (m_root this)") (auto simp: drain_yielding)

lemma set_drain_yielding:
  "SortedSet_drain later (Yielding xs) = take (length later) xs"
proof (induction later arbitrary: xs)
  case Nil
  then show ?case by simp
next
  case (Cons this later)
  then show ?case by (cases xs) auto
qed

lemma set_drain_suspended:
  "SortedSet_drain (this # later) Suspended =
     take (Suc (length later)) (createSnapshot (s_root this))"
  by (cases "createSnapshot (s_root this)") (auto simp: set_drain_yielding)

lemma keys_tree_Null [simp]: "keys_tree t = Null \<longleftrightarrow> t = MNull"
  by (cases t) auto

lemma keys_isRed [simp]: "isRed (keys_tree t) = map_isRed t"
  by (cases t) auto

lemma keys_size_of [simp]: "size_of (keys_tree t) = map_size_of t"
  by (cases t) auto

lemma keys_left [simp]: "t \<noteq> MNull \<Longrightarrow> left (keys_tree t) = keys_tree (mleft t)"
  by (cases t) auto

lemma keys_has: "has cmp (keys_tree t) x = map_has cmp t x"
  by (induction t) auto

lemma keys_set: "set_node (keys_tree t) = set1_mnode t"
  by (induction t) auto

lemma keys_bst_order: "bst_order cmp (keys_tree t) = map_bst_order cmp t"
  by (induction t) (auto simp: keys_set)

lemma keys_inorder: "inorder (keys_tree t) = map fst (entries t)"
  by (induction t) auto

lemma keys_floor: "floor_node cmp (keys_tree t) x = keys_tree (map_floor_node cmp t x)"
  by (induction t) (auto split: mnode.splits node.splits)

lemma keys_ceiling: "ceiling_node cmp (keys_tree t) x = keys_tree (map_ceiling_node cmp t x)"
  by (induction t) (auto split: mnode.splits node.splits)

lemma keys_min: "min_node (keys_tree t) = keys_result (map_min_node t)"
  by (induction t) auto

lemma keys_max: "max_node (keys_tree t) = keys_result (map_max_node t)"
  by (induction t) auto

lemma keys_rotateLeft: "rotateLeft (keys_tree t) = keys_result (map_rotateLeft t)"
  by (induction t rule: map_rotateLeft.induct) auto

lemma keys_rotateRight: "rotateRight (keys_tree t) = keys_result (map_rotateRight t)"
  by (induction t rule: map_rotateRight.induct) auto

lemma keys_flipColors: "flipColors (keys_tree t) = keys_result (map_flipColors t)"
  by (induction t rule: map_flipColors.induct) auto


lemma keys_moveRedLeft: "moveRedLeft (keys_tree t) = keys_result (map_moveRedLeft t)"
  by (cases t; cases "mleft t"; cases "mright t"; cases "mleft (mright t)")
     (auto simp: moveRedLeft.simps)

lemma keys_moveRedRight: "moveRedRight (keys_tree t) = keys_result (map_moveRedRight t)"
  by (cases t; cases "mleft t"; cases "mright t"; cases "mleft (mleft t)")
     (auto simp: moveRedRight.simps)

lemma keys_balance: "balance (keys_tree t) = keys_result (map_balance t)"
  by (cases t; cases "mleft t"; cases "mright t"; cases "mleft (mleft t)"; cases "mright (mright t)")
     (auto simp: balance.simps)

lemma map_min_node_correct:
  assumes V: "valid_compareFn cmp" and B: "map_bst_order cmp t" and N: "t \<noteq> MNull"
  shows "\<exists>k v l r c s. map_min_node t = Inr (MNode k v l r c s) \<and> k \<in> set1_mnode t \<and>
                     (\<forall>y \<in> set1_mnode t. cmp k y \<le> 0)"
proof -
  from min_node_correct[OF V, of "keys_tree t"] B N obtain k l' r' c s where
    m: "min_node (keys_tree t) = Inr (Node k l' r' c s)" "k \<in> set1_mnode t"
       "\<forall>y \<in> set1_mnode t. cmp k y \<le> 0"
    by (auto simp: keys_bst_order keys_set)
  from m(1) have "keys_result (map_min_node t) = Inr (Node k l' r' c s)" by (simp add: keys_min)
  then obtain v l r where "map_min_node t = Inr (MNode k v l r c s)"
    by (cases "map_min_node t"; cases "projr (map_min_node t)") auto
  with m show ?thesis by blast
qed

lemma map_max_node_correct:
  assumes V: "valid_compareFn cmp" and B: "map_bst_order cmp t" and N: "t \<noteq> MNull"
  shows "\<exists>k v l r c s. map_max_node t = Inr (MNode k v l r c s) \<and> k \<in> set1_mnode t \<and>
                     (\<forall>y \<in> set1_mnode t. cmp y k \<le> 0)"
proof -
  from max_node_correct[OF V, of "keys_tree t"] B N obtain k l' r' c s where
    m: "max_node (keys_tree t) = Inr (Node k l' r' c s)" "k \<in> set1_mnode t"
       "\<forall>y \<in> set1_mnode t. cmp y k \<le> 0"
    by (auto simp: keys_bst_order keys_set)
  from m(1) have "keys_result (map_max_node t) = Inr (Node k l' r' c s)" by (simp add: keys_max)
  then obtain v l r where "map_max_node t = Inr (MNode k v l r c s)"
    by (cases "map_max_node t"; cases "projr (map_max_node t)") auto
  with m show ?thesis by blast
qed

lemma map_floor_node_correct:
  assumes V: "valid_compareFn cmp" and B: "map_bst_order cmp t"
  shows "(case map_floor_node cmp t x of
            MNull \<Rightarrow> \<forall>y \<in> set1_mnode t. cmp x y < 0
          | MNode k v l r c s \<Rightarrow> k \<in> set1_mnode t \<and> cmp k x \<le> 0 \<and>
              (\<forall>y \<in> set1_mnode t. cmp y x \<le> 0 \<longrightarrow> cmp y k \<le> 0))"
  using floor_node_correct[OF V, of "keys_tree t" x] B
  by (cases "map_floor_node cmp t x") (auto simp: keys_bst_order keys_set keys_floor)

lemma map_ceiling_node_correct:
  assumes V: "valid_compareFn cmp" and B: "map_bst_order cmp t"
  shows "(case map_ceiling_node cmp t x of
            MNull \<Rightarrow> \<forall>y \<in> set1_mnode t. cmp y x < 0
          | MNode k v l r c s \<Rightarrow> k \<in> set1_mnode t \<and> cmp x k \<le> 0 \<and>
              (\<forall>y \<in> set1_mnode t. cmp x y \<le> 0 \<longrightarrow> cmp k y \<le> 0))"
  using ceiling_node_correct[OF V, of "keys_tree t" x] B
  by (cases "map_ceiling_node cmp t x") (auto simp: keys_bst_order keys_set keys_ceiling)

lemma map_keys_unique:
  assumes V: "valid_compareFn cmp" and B: "map_bst_order cmp t"
    and "a \<in> set1_mnode t" and "b \<in> set1_mnode t" and "cmp a b = 0"
  shows "a = b"
proof -
  have "ordered cmp (inorder (keys_tree t))"
    using B bst_order_iff[OF V, of "keys_tree t"] by (simp add: keys_bst_order)
  from ordered_unique[OF V this, of a b] assms(3-5) show ?thesis
    by (simp add: set_inorder keys_set)
qed


section \<open>The map does on its keys what the set does\<close>

text \<open>
  \<^verbatim>\<open>insert\<close>, \<^verbatim>\<open>deleteMin\<close>, \<^verbatim>\<open>deleteMax\<close> and \<^verbatim>\<open>remove\<close> of the map take the same
  branches as those of the set on the tree of keys, fail where they fail and return the
  tree whose keys are the set's result. The same holds for every public method, so a run
  of calls on the map is a run on the set of its keys: it never aborts, and the invariants
  1 to 5 hold in every map that public calls can reach.
\<close>

lemma keys_insert: "insert_node cmp (keys_tree t) x = keys_result (map_insert_node cmp t x y)"
  by (induction t)
     (auto simp: keys_balance[symmetric] simp del: map_balance.simps split: sum.splits)

lemma keys_deleteMin: "deleteMin (keys_tree t) = keys_result (map_deleteMin t)"
proof (induction t rule: map_deleteMin.induct)
  case 1
  show ?case by simp
next
  case (2 k v l r c s)
  have m: "\<And>k' l' r' c' s'. moveRedLeft (Node k' (keys_tree l') (keys_tree r') c' s') =
             keys_result (map_moveRedLeft (MNode k' v l' r' c' s'))"
    using keys_moveRedLeft[of "MNode _ v _ _ _ _"] by (simp del: map_moveRedLeft.simps)
  show ?case using "2.IH"
    by (auto simp: m keys_balance[symmetric]
             simp del: map_moveRedLeft.simps map_balance.simps
             split: sum.splits mnode.splits if_splits)
qed

lemma map_isRed_MNode: "map_isRed t \<Longrightarrow> \<exists>k v l r s. t = MNode k v l r True s"
  by (cases t) auto

lemma keys_deleteMax: "deleteMax (keys_tree t) = keys_result (map_deleteMax t)"
proof (induction "map_count_nodes t" arbitrary: t rule: less_induct)
  case less
  show ?case
  proof (cases t)
    case MNull
    then show ?thesis by simp
  next
    case t: (MNode k v l r c s)
    note [simp del] = map_deleteMax.simps deleteMax.simps map_moveRedRight.simps
      map_balance.simps
    show ?thesis
    proof (cases "c \<or> map_isRed r \<or> map_isRed l")
      case False
      then show ?thesis unfolding t keys_tree.simps
        by (subst deleteMax.simps, subst map_deleteMax.simps) simp
    next
      case pre: True
      show ?thesis
      proof (cases "map_isRed l")
        case True
        then obtain lk lv ll lr ls where l: "l = MNode lk lv ll lr True ls"
          using map_isRed_MNode by blast
        define r1 where "r1 = MNode k v lr r True (map_size_of lr + map_size_of r + 1)"
        have "map_count_nodes r1 < map_count_nodes t" by (simp add: r1_def t l)
        from less[OF this] have IH: "deleteMax (keys_tree r1) = keys_result (map_deleteMax r1)" .
        have L: "map_deleteMax t = (case map_deleteMax r1 of Inl e \<Rightarrow> Inl e
                    | Inr r3 \<Rightarrow> map_balance (MNode lk lv ll r3 c s))"
          unfolding t by (subst map_deleteMax.simps) (simp add: l r1_def)
        have R: "deleteMax (keys_tree t) = (case deleteMax (keys_tree r1) of Inl e \<Rightarrow> Inl e
                    | Inr r3 \<Rightarrow> balance (Node lk (keys_tree ll) r3 c s))"
          unfolding t keys_tree.simps by (subst deleteMax.simps) (simp add: l r1_def)
        show ?thesis unfolding L R IH
          by (cases "map_deleteMax r1")
             (simp_all add: keys_balance[of "MNode lk lv ll _ c s", simplified])
      next
        case nl: False
        show ?thesis
        proof (cases "r = MNull")
          case True
          with pre nl show ?thesis unfolding t keys_tree.simps
            by (subst deleteMax.simps, subst map_deleteMax.simps) simp
        next
          case rnn: False
          show ?thesis
          proof (cases "\<not> map_isRed r \<and> \<not> map_isRed (mleft r)")
            case nomove: False
            have "map_count_nodes r < map_count_nodes t" by (simp add: t)
            from less[OF this] have IH: "deleteMax (keys_tree r) = keys_result (map_deleteMax r)" .
            have L: "map_deleteMax t = (case map_deleteMax r of Inl e \<Rightarrow> Inl e
                    | Inr r3 \<Rightarrow> map_balance (MNode k v l r3 c s))"
              unfolding t using pre nl rnn nomove by (subst map_deleteMax.simps) auto
            have R: "deleteMax (keys_tree t) = (case deleteMax (keys_tree r) of Inl e \<Rightarrow> Inl e
                    | Inr r3 \<Rightarrow> balance (Node k (keys_tree l) r3 c s))"
              unfolding t keys_tree.simps using pre nl rnn nomove
              by (subst deleteMax.simps) auto
            show ?thesis unfolding L R IH
              by (cases "map_deleteMax r")
                 (simp_all add: keys_balance[of "MNode k v l _ c s", simplified])
          next
            case move: True
            note km = keys_moveRedRight[of t, unfolded t keys_tree.simps]
            have L: "map_deleteMax t = (case map_moveRedRight t of Inl e \<Rightarrow> Inl e
                    | Inr MNull \<Rightarrow> Inl TypeError
                    | Inr (MNode k2 v2 l2 r2 c2 s2) \<Rightarrow>
                       (case map_deleteMax r2 of Inl e \<Rightarrow> Inl e
                        | Inr r3 \<Rightarrow> map_balance (MNode k2 v2 l2 r3 c2 s2)))"
              unfolding t using pre nl rnn move by (subst map_deleteMax.simps) auto
            have R: "deleteMax (keys_tree t) = (case keys_result (map_moveRedRight t) of Inl e \<Rightarrow> Inl e
                    | Inr Null \<Rightarrow> Inl TypeError
                    | Inr (Node k2 l2 r2 c2 s2) \<Rightarrow>
                       (case deleteMax r2 of Inl e \<Rightarrow> Inl e
                        | Inr r3 \<Rightarrow> balance (Node k2 l2 r3 c2 s2)))"
              unfolding t keys_tree.simps using pre nl rnn move km
              by (subst deleteMax.simps) auto
            show ?thesis
            proof (cases "map_moveRedRight t")
              case (Inl e)
              then show ?thesis unfolding L R by simp
            next
              case (Inr x)
              show ?thesis
              proof (cases x)
                case MNull
                with Inr show ?thesis unfolding L R by simp
              next
                case (MNode k2 v2 l2 r2 c2 s2)
                from map_count_moveRedRight[OF Inr] MNode
                have "map_count_nodes r2 < map_count_nodes t" by simp
                from less[OF this]
                have IH: "deleteMax (keys_tree r2) = keys_result (map_deleteMax r2)" .
                show ?thesis unfolding L R using Inr MNode IH
                  by (cases "map_deleteMax r2")
                     (simp_all add: keys_balance[of "MNode k2 v2 l2 _ c2 s2", simplified])
              qed
            qed
          qed
        qed
      qed
    qed
  qed
qed

lemma keys_remove:
  fixes t :: "('k, 'v) mnode"
  shows "remove_node cmp (keys_tree t) x = keys_result (map_remove_node cmp t x)"
proof (induction "map_count_nodes t" arbitrary: t rule: less_induct)
  case less
  note [simp del] = map_remove_node.simps remove_node.simps map_moveRedRight.simps
      map_moveRedLeft.simps map_balance.simps map_rotateRight.simps
      map_deleteMin.simps deleteMin.simps
  let ?S3m = "\<lambda>k2 v2 l2 r2 c2 s2.
     if cmp x k2 = 0 then
       (case map_min_node r2 of
          Inl e \<Rightarrow> Inl e
        | Inr MNull \<Rightarrow> Inl TypeError
        | Inr (MNode mk mv ml mr mc ms) \<Rightarrow>
           (case map_deleteMin r2 of
              Inl e \<Rightarrow> Inl e
            | Inr r3 \<Rightarrow> map_balance (MNode mk mv l2 r3 c2 s2)))
     else
       (case map_remove_node cmp r2 x of
          Inl e \<Rightarrow> Inl e
        | Inr r3 \<Rightarrow> map_balance (MNode k2 v2 l2 r3 c2 s2))"
  let ?S3s = "\<lambda>k2 l2 r2 c2 s2.
     if cmp x k2 = 0 then
       (case min_node r2 of
          Inl e \<Rightarrow> Inl e
        | Inr Null \<Rightarrow> Inl TypeError
        | Inr (Node mv ml mr mc ms) \<Rightarrow>
           (case deleteMin r2 of
              Inl e \<Rightarrow> Inl e
            | Inr r3 \<Rightarrow> balance (Node mv l2 r3 c2 s2)))
     else
       (case remove_node cmp r2 x of
          Inl e \<Rightarrow> Inl e
        | Inr r3 \<Rightarrow> balance (Node k2 l2 r3 c2 s2))"
  let ?S2m = "\<lambda>k1 v1 l1 r1 c1 s1.
     if cmp x k1 = 0 \<and> r1 = MNull then Inr MNull
     else if r1 = MNull then Inl AssertionError
     else (case (if \<not> map_isRed r1 \<and> \<not> map_isRed (mleft r1)
                 then map_moveRedRight (MNode k1 v1 l1 r1 c1 s1)
                 else Inr (MNode k1 v1 l1 r1 c1 s1)) of
             Inl e \<Rightarrow> Inl e
           | Inr MNull \<Rightarrow> Inl TypeError
           | Inr (MNode k2 v2 l2 r2 c2 s2) \<Rightarrow> ?S3m k2 v2 l2 r2 c2 s2)"
  let ?S2s = "\<lambda>k1 l1 r1 c1 s1.
     if cmp x k1 = 0 \<and> r1 = Null then Inr Null
     else if r1 = Null then Inl AssertionError
     else (case (if \<not> isRed r1 \<and> \<not> isRed (left r1)
                 then moveRedRight (Node k1 l1 r1 c1 s1)
                 else Inr (Node k1 l1 r1 c1 s1)) of
             Inl e \<Rightarrow> Inl e
           | Inr Null \<Rightarrow> Inl TypeError
           | Inr (Node k2 l2 r2 c2 s2) \<Rightarrow> ?S3s k2 l2 r2 c2 s2)"
  have stage3: "?S3s k2 (keys_tree l2) (keys_tree r2) c2 s2 = keys_result (?S3m k2 v2 l2 r2 c2 s2)"
    if lt: "map_count_nodes r2 < map_count_nodes t" for k2 v2 l2 and r2 :: "('k, 'v) mnode" and c2 s2
  proof (cases "cmp x k2 = 0")
    case True
    show ?thesis
    proof (cases "map_min_node r2")
      case (Inl e)
      with True show ?thesis by (simp add: keys_min)
    next
      case (Inr m)
      show ?thesis
      proof (cases m)
        case MNull
        with True Inr show ?thesis by (simp add: keys_min)
      next
        case (MNode mk mv ml mr mc ms)
        with True Inr show ?thesis
          by (cases "map_deleteMin r2")
             (simp_all add: keys_min keys_deleteMin[of r2]
                keys_balance[of "MNode mk mv l2 _ c2 s2", simplified])
      qed
    qed
  next
    case False
    from less[OF lt]
    have IH: "remove_node cmp (keys_tree r2) x = keys_result (map_remove_node cmp r2 x)" .
    from False show ?thesis unfolding IH
      by (cases "map_remove_node cmp r2 x")
         (simp_all add: keys_balance[of "MNode k2 v2 l2 _ c2 s2", simplified])
  qed
  have stage2: "?S2s k1 (keys_tree l1) (keys_tree r1) c1 s1 = keys_result (?S2m k1 v1 l1 r1 c1 s1)"
    if eq: "map_count_nodes (MNode k1 v1 l1 r1 c1 s1) = map_count_nodes t"
    for k1 v1 l1 and r1 :: "('k, 'v) mnode" and c1 s1
  proof (cases "r1 = MNull")
    case True
    then show ?thesis by simp
  next
    case rnn: False
    show ?thesis
    proof (cases "\<not> map_isRed r1 \<and> \<not> map_isRed (mleft r1)")
      case False
      from eq have "map_count_nodes r1 < map_count_nodes t" by simp
      from stage3[OF this, of k1 l1 c1 s1 v1] rnn False show ?thesis by auto
    next
      case move: True
      note km = keys_moveRedRight[of "MNode k1 v1 l1 r1 c1 s1", unfolded keys_tree.simps]
      show ?thesis
      proof (cases "map_moveRedRight (MNode k1 v1 l1 r1 c1 s1)")
        case (Inl e)
        with rnn move km show ?thesis by simp
      next
        case (Inr y)
        show ?thesis
        proof (cases y)
          case MNull
          with Inr rnn move km show ?thesis by simp
        next
          case (MNode k2 v2 l2 r2 c2 s2)
          from map_count_moveRedRight[OF Inr] MNode eq
          have "map_count_nodes r2 < map_count_nodes t" by simp
          from stage3[OF this, of k2 l2 c2 s2 v2] Inr MNode rnn move km show ?thesis by simp
        qed
      qed
    qed
  qed
  show ?case
  proof (cases t)
    case MNull
    then show ?thesis by (simp add: remove_node.simps map_remove_node.simps)
  next
    case t: (MNode k v l r c s)
    show ?thesis
    proof (cases "cmp x k < 0")
      case lt: True
      show ?thesis
      proof (cases "l = MNull")
        case True
        with lt show ?thesis unfolding t keys_tree.simps
          by (subst remove_node.simps, subst map_remove_node.simps) simp
      next
        case lnn: False
        show ?thesis
        proof (cases "\<not> map_isRed l \<and> \<not> map_isRed (mleft l)")
          case nomove: False
          have "map_count_nodes l < map_count_nodes t" by (simp add: t)
          from less[OF this]
          have IH: "remove_node cmp (keys_tree l) x = keys_result (map_remove_node cmp l x)" .
          have L: "map_remove_node cmp t x = (case map_remove_node cmp l x of Inl e \<Rightarrow> Inl e
                    | Inr l2 \<Rightarrow> map_balance (MNode k v l2 r c s))"
            unfolding t using lt lnn nomove by (subst map_remove_node.simps) auto
          have R: "remove_node cmp (keys_tree t) x = (case remove_node cmp (keys_tree l) x of Inl e \<Rightarrow> Inl e
                    | Inr l2 \<Rightarrow> balance (Node k l2 (keys_tree r) c s))"
            unfolding t keys_tree.simps using lt lnn nomove
            by (subst remove_node.simps) auto
          show ?thesis unfolding L R IH
            by (cases "map_remove_node cmp l x")
               (simp_all add: keys_balance[of "MNode k v _ r c s", simplified])
        next
          case move: True
          note km = keys_moveRedLeft[of t, unfolded t keys_tree.simps]
          have L: "map_remove_node cmp t x = (case map_moveRedLeft t of Inl e \<Rightarrow> Inl e
                    | Inr MNull \<Rightarrow> Inl TypeError
                    | Inr (MNode k1 v1 l1 r1 c1 s1) \<Rightarrow>
                       (case map_remove_node cmp l1 x of Inl e \<Rightarrow> Inl e
                        | Inr l2 \<Rightarrow> map_balance (MNode k1 v1 l2 r1 c1 s1)))"
            unfolding t using lt lnn move by (subst map_remove_node.simps) auto
          have R: "remove_node cmp (keys_tree t) x = (case keys_result (map_moveRedLeft t) of Inl e \<Rightarrow> Inl e
                    | Inr Null \<Rightarrow> Inl TypeError
                    | Inr (Node k1 l1 r1 c1 s1) \<Rightarrow>
                       (case remove_node cmp l1 x of Inl e \<Rightarrow> Inl e
                        | Inr l2 \<Rightarrow> balance (Node k1 l2 r1 c1 s1)))"
            unfolding t keys_tree.simps using lt lnn move km
            by (subst remove_node.simps) auto
          show ?thesis
          proof (cases "map_moveRedLeft t")
            case (Inl e)
            then show ?thesis unfolding L R by simp
          next
            case (Inr y)
            show ?thesis
            proof (cases y)
              case MNull
              with Inr show ?thesis unfolding L R by simp
            next
              case (MNode k1 v1 l1 r1 c1 s1)
              from map_count_moveRedLeft[OF Inr] MNode
              have "map_count_nodes l1 < map_count_nodes t" by simp
              from less[OF this]
              have IH: "remove_node cmp (keys_tree l1) x = keys_result (map_remove_node cmp l1 x)" .
              show ?thesis unfolding L R using Inr MNode IH
                by (cases "map_remove_node cmp l1 x")
                   (simp_all add: keys_balance[of "MNode k1 v1 _ r1 c1 s1", simplified])
            qed
          qed
        qed
      qed
    next
      case ge: False
      show ?thesis
      proof (cases "map_isRed l")
        case True
        then obtain lk lv ll lr ls where l: "l = MNode lk lv ll lr True ls"
          using map_isRed_MNode by blast
        let ?r1 = "MNode k v lr r True (map_size_of lr + map_size_of r + 1)"
        have L: "map_remove_node cmp t x = ?S2m lk lv ll ?r1 c s"
          unfolding t using ge by (subst map_remove_node.simps) (simp add: l map_rotateRight.simps)
        have R: "remove_node cmp (keys_tree t) x = ?S2s lk (keys_tree ll) (keys_tree ?r1) c s"
          unfolding t keys_tree.simps using ge by (subst remove_node.simps) (simp add: l)
        have "map_count_nodes (MNode lk lv ll ?r1 c s) = map_count_nodes t" by (simp add: t l)
        from stage2[OF this] show ?thesis unfolding L R .
      next
        case False
        have L: "map_remove_node cmp t x = ?S2m k v l r c s"
          unfolding t using ge False by (subst map_remove_node.simps) simp
        have R: "remove_node cmp (keys_tree t) x = ?S2s k (keys_tree l) (keys_tree r) c s"
          unfolding t keys_tree.simps using ge False by (subst remove_node.simps) simp
        have "map_count_nodes (MNode k v l r c s) = map_count_nodes t" by (simp add: t)
        from stage2[OF this] show ?thesis unfolding L R .
      qed
    qed
  qed
qed

lemma next_state_map_outcome [simp]: "next_state (map_outcome f id out) = next_state out"
  by (cases out) auto

lemma keys_blacken: "keys_tree (map_blacken t) = blacken (keys_tree t)"
  by (cases t) auto

lemma keys_container_simps [simp]:
  "s_root (keys_container this) = keys_tree (m_root this)"
  "s_compareFn (keys_container this) = m_compareFn this"
  "keys_container (this\<lparr>m_root := t\<rparr>) = (keys_container this)\<lparr>s_root := keys_tree t\<rparr>"
  by (simp_all add: keys_container_def)

lemma keys_SortedMap_set:
  "map_sum id keys_container (next_state (SortedMap_set this x y)) =
   next_state (SortedSet_add (keys_container this) x)"
proof -
  note k = keys_insert[of "m_compareFn this" "m_root this" x y]
  show ?thesis
  proof (cases "map_insert_node (m_compareFn this) (m_root this) x y")
    case (Inl e)
    with k show ?thesis by (simp add: SortedMap_set_def SortedSet_add_def)
  next
    case (Inr t)
    with k show ?thesis by (cases t) (simp_all add: SortedMap_set_def SortedSet_add_def)
  qed
qed

lemma keys_precolour:
  "keys_tree (if \<not> map_isRed l \<and> \<not> map_isRed r then MNode k v l r RED s else MNode k v l r c s) =
   (if \<not> isRed (keys_tree l) \<and> \<not> isRed (keys_tree r) then Node k (keys_tree l) (keys_tree r) RED s
    else Node k (keys_tree l) (keys_tree r) c s)"
  by simp

lemma keys_SortedMap_delete:
  "map_sum id keys_container (next_state (SortedMap_delete this x)) =
   next_state (SortedSet_delete (keys_container this) x)"
proof (cases "m_root this")
  case MNull
  then show ?thesis
    by (simp add: SortedMap_delete_def SortedSet_delete_def SortedMap_has_def SortedSet_has_def keys_has)
next
  case (MNode k v l r c s)
  let ?t0 = "if \<not> map_isRed l \<and> \<not> map_isRed r then MNode k v l r RED s else MNode k v l r c s"
  note kr = keys_remove[of "m_compareFn this" ?t0 x, unfolded keys_precolour]
  show ?thesis
  proof (cases "map_remove_node (m_compareFn this) ?t0 x")
    case (Inl e)
    with kr MNode show ?thesis
      by (simp add: SortedMap_delete_def SortedSet_delete_def SortedMap_has_def SortedSet_has_def
            keys_has[symmetric] del: map_remove_node.simps remove_node.simps)
  next
    case (Inr t)
    with kr MNode show ?thesis
      by (simp add: SortedMap_delete_def SortedSet_delete_def SortedMap_has_def SortedSet_has_def
            keys_has[symmetric] keys_blacken del: map_remove_node.simps remove_node.simps)
  qed
qed

lemma keys_SortedMap_deleteMin:
  "map_sum id keys_container (next_state (SortedMap_deleteMin this)) =
   next_state (SortedSet_deleteMin (keys_container this))"
proof (cases "m_root this")
  case MNull
  then show ?thesis
    by (simp add: SortedMap_deleteMin_def SortedSet_deleteMin_def SortedMap_isEmpty_def SortedSet_isEmpty_def)
next
  case (MNode k v l r c s)
  let ?t0 = "if \<not> map_isRed l \<and> \<not> map_isRed r then MNode k v l r RED s else MNode k v l r c s"
  note kr = keys_deleteMin[of ?t0, unfolded keys_precolour]
  show ?thesis
  proof (cases "map_deleteMin ?t0")
    case (Inl e)
    with kr MNode show ?thesis
      by (simp add: SortedMap_deleteMin_def SortedSet_deleteMin_def SortedMap_isEmpty_def SortedSet_isEmpty_def
            del: map_deleteMin.simps deleteMin.simps)
  next
    case (Inr t)
    with kr MNode show ?thesis
      by (simp add: SortedMap_deleteMin_def SortedSet_deleteMin_def SortedMap_isEmpty_def SortedSet_isEmpty_def
            keys_blacken del: map_deleteMin.simps deleteMin.simps)
  qed
qed

lemma keys_SortedMap_deleteMax:
  "map_sum id keys_container (next_state (SortedMap_deleteMax this)) =
   next_state (SortedSet_deleteMax (keys_container this))"
proof (cases "m_root this")
  case MNull
  then show ?thesis
    by (simp add: SortedMap_deleteMax_def SortedSet_deleteMax_def SortedMap_isEmpty_def SortedSet_isEmpty_def)
next
  case (MNode k v l r c s)
  let ?t0 = "if \<not> map_isRed l \<and> \<not> map_isRed r then MNode k v l r RED s else MNode k v l r c s"
  note kr = keys_deleteMax[of ?t0, unfolded keys_precolour]
  show ?thesis
  proof (cases "map_deleteMax ?t0")
    case (Inl e)
    with kr MNode show ?thesis
      by (simp add: SortedMap_deleteMax_def SortedSet_deleteMax_def SortedMap_isEmpty_def SortedSet_isEmpty_def
            del: map_deleteMax.simps deleteMax.simps)
  next
    case (Inr t)
    with kr MNode show ?thesis
      by (simp add: SortedMap_deleteMax_def SortedSet_deleteMax_def SortedMap_isEmpty_def SortedSet_isEmpty_def
            keys_blacken del: map_deleteMax.simps deleteMax.simps)
  qed
qed

lemma keys_SortedMap_min:
  "map_sum id keys_container (next_state (SortedMap_min this)) =
   next_state (SortedSet_min (keys_container this))"
proof (cases "map_min_node (m_root this)")
  case (Inl e)
  with keys_min[of "m_root this"] show ?thesis
    by (simp add: SortedMap_min_def SortedSet_min_def SortedMap_isEmpty_def SortedSet_isEmpty_def)
next
  case (Inr t)
  with keys_min[of "m_root this"] show ?thesis
    by (cases t) (simp_all add: SortedMap_min_def SortedSet_min_def SortedMap_isEmpty_def SortedSet_isEmpty_def)
qed

lemma keys_SortedMap_max:
  "map_sum id keys_container (next_state (SortedMap_max this)) =
   next_state (SortedSet_max (keys_container this))"
proof (cases "map_max_node (m_root this)")
  case (Inl e)
  with keys_max[of "m_root this"] show ?thesis
    by (simp add: SortedMap_max_def SortedSet_max_def SortedMap_isEmpty_def SortedSet_isEmpty_def)
next
  case (Inr t)
  with keys_max[of "m_root this"] show ?thesis
    by (cases t) (simp_all add: SortedMap_max_def SortedSet_max_def SortedMap_isEmpty_def SortedSet_isEmpty_def)
qed

lemma keys_SortedMap_floor:
  "map_sum id keys_container (next_state (SortedMap_floor this x)) =
   next_state (SortedSet_floor (keys_container this) x)"
  using keys_floor[of "m_compareFn this" "m_root this" x]
  by (cases "map_floor_node (m_compareFn this) (m_root this) x")
     (simp_all add: SortedMap_floor_def SortedSet_floor_def SortedMap_isEmpty_def SortedSet_isEmpty_def)

lemma keys_SortedMap_ceiling:
  "map_sum id keys_container (next_state (SortedMap_ceiling this x)) =
   next_state (SortedSet_ceiling (keys_container this) x)"
  using keys_ceiling[of "m_compareFn this" "m_root this" x]
  by (cases "map_ceiling_node (m_compareFn this) (m_root this) x")
     (simp_all add: SortedMap_ceiling_def SortedSet_ceiling_def SortedMap_isEmpty_def SortedSet_isEmpty_def)

lemma keys_SortedMap_call:
  "map_sum id keys_container (next_state (SortedMap_call this c)) =
   next_state (SortedSet_call (keys_container this) (keys_call c))"
proof (cases c)
  case MCall_clear
  then show ?thesis by (simp add: SortedMap_clear_def SortedSet_clear_def)
next
  case (MCall_set x y)
  then show ?thesis by (simp add: keys_SortedMap_set)
next
  case (MCall_delete x)
  then show ?thesis by (simp add: keys_SortedMap_delete)
next
  case MCall_min
  then show ?thesis by (simp add: keys_SortedMap_min)
next
  case MCall_max
  then show ?thesis by (simp add: keys_SortedMap_max)
next
  case MCall_deleteMin
  then show ?thesis by (simp add: keys_SortedMap_deleteMin)
next
  case MCall_deleteMax
  then show ?thesis by (simp add: keys_SortedMap_deleteMax)
next
  case (MCall_floor x)
  then show ?thesis by (simp add: keys_SortedMap_floor)
next
  case (MCall_ceiling x)
  then show ?thesis by (simp add: keys_SortedMap_ceiling)
qed simp_all

lemma SortedSet_run_next:
  "SortedSet_run this (c # cs) =
     (case next_state (SortedSet_call this c) of Inl e \<Rightarrow> Inl e | Inr s \<Rightarrow> SortedSet_run s cs)"
  by (cases "SortedSet_call this c") simp_all

lemma SortedMap_run_next:
  "SortedMap_run this (c # cs) =
     (case next_state (SortedMap_call this c) of Inl e \<Rightarrow> Inl e | Inr s \<Rightarrow> SortedMap_run s cs)"
  by (cases "SortedMap_call this c") simp_all

lemma keys_SortedMap_run:
  "map_sum id keys_container (SortedMap_run this cs) =
   SortedSet_run (keys_container this) (map keys_call cs)"
proof (induction cs arbitrary: this)
  case Nil
  show ?case by simp
next
  case (Cons c cs)
  note k = keys_SortedMap_call[of this c]
  show ?case
  proof (cases "next_state (SortedMap_call this c)")
    case (Inl e)
    with k[symmetric] show ?thesis
      by (simp add: SortedSet_run_next SortedMap_run_next
               del: SortedSet_run.simps SortedMap_run.simps SortedMap_call.simps SortedSet_call.simps)
  next
    case (Inr s)
    with k[symmetric] Cons.IH[of s] show ?thesis
      by (simp add: SortedSet_run_next SortedMap_run_next
               del: SortedSet_run.simps(2) SortedMap_run.simps(2) SortedMap_call.simps SortedSet_call.simps)
  qed
qed

lemma keys_container_new: "keys_container (SortedMap_new cmp) = SortedSet_new cmp"
  by (simp add: keys_container_def SortedMap_new_def SortedSet_new_def)

lemma SortedMap_run_ok:
  assumes V: "valid_compareFn compareFn"
  shows "\<exists>this. SortedMap_run (SortedMap_new compareFn) calls = Inr this \<and>
           set_ok (keys_container this) \<and> m_compareFn this = compareFn"
proof -
  from SortedSet_run_ok[OF set_ok_new[OF V], of "map keys_call calls"] obtain s where
    s: "SortedSet_run (SortedSet_new compareFn) (map keys_call calls) = Inr s" "set_ok s"
       "s_compareFn s = compareFn" by (auto simp: SortedSet_new_def)
  from keys_SortedMap_run[of "SortedMap_new compareFn" calls] s(1)
  have "map_sum id keys_container (SortedMap_run (SortedMap_new compareFn) calls) = Inr s"
    by (simp add: keys_container_new)
  then obtain this where t: "SortedMap_run (SortedMap_new compareFn) calls = Inr this"
    "keys_container this = s" by (cases "SortedMap_run (SortedMap_new compareFn) calls") auto
  with s show ?thesis by (auto simp: keys_container_def)
qed

lemma SortedMap_invariants_1_to_5:
  assumes V: "valid_compareFn compareFn"
    and R: "SortedMap_run (SortedMap_new compareFn) calls = Inr this"
  shows "m_compareFn this = compareFn \<and> map_bst_order compareFn (m_root this) \<and>
         no_red_right (keys_tree (m_root this)) \<and> no_red_red (keys_tree (m_root this)) \<and>
         black_balanced (keys_tree (m_root this)) \<and> root_black (keys_tree (m_root this))"
proof -
  from SortedMap_run_ok[OF V, of calls] R have ok: "set_ok (keys_container this)"
    and c: "m_compareFn this = compareFn" by auto
  from ok c show ?thesis
    using bst_order_iff[OF V, of "keys_tree (m_root this)"] llrb_iff[of "keys_tree (m_root this)"]
    by (simp add: set_ok_def root_black_def keys_bst_order)
qed

section \<open>The size fields\<close>

text \<open>
  C1. After every public call the tree satisfies the six invariants, the sixth being
  that every node's \<^verbatim>\<open>size\<close> is 1 + size(left) + size(right). The code does not keep
  the sixth: \<^verbatim>\<open>insert\<close> never assigns \<^verbatim>\<open>root.size\<close> and \<^verbatim>\<open>balance\<close> does not either, so
  after \<^verbatim>\<open>add(1); add(2)\<close> on a new set the root has two nodes below it and
  \<^verbatim>\<open>size\<close> 1.
\<close>

theorem SortedSet_size_invariant_broken:
  "SortedSet_add (SortedSet_new number_compare) 1 =
     Returned () \<lparr>s_root = Node 1 Null Null BLACK 1, s_compareFn = number_compare\<rparr> \<and>
   SortedSet_add \<lparr>s_root = Node 1 Null Null BLACK 1, s_compareFn = number_compare\<rparr> 2 =
     Returned () \<lparr>s_root = Node 2 (Node 1 Null Null RED 1) Null BLACK 1, s_compareFn = number_compare\<rparr> \<and>
   \<not> sizes_ok (Node 2 (Node (1::int) Null Null RED 1) Null BLACK 1)"
  by (simp add: SortedSet_add_def SortedSet_new_def number_compare_def balance.simps)

text \<open>
  C2. On the map, \<^verbatim>\<open>get(k)\<close> returns the value last set for \<^verbatim>\<open>k\<close> and \<^verbatim>\<open>size()\<close> the
  number of distinct keys set and not deleted. After \<^verbatim>\<open>set(1, "a"); set(2, "b")\<close> both
  values are found, and \<^verbatim>\<open>size()\<close> is 1, not 2.
\<close>

theorem SortedMap_size_wrong_after_two_sets:
  "SortedMap_set (SortedMap_new number_compare) 1 (Defined ''a'') =
     Returned () \<lparr>m_root = MNode 1 (Defined ''a'') MNull MNull BLACK 1, m_compareFn = number_compare\<rparr> \<and>
   SortedMap_set \<lparr>m_root = MNode 1 (Defined ''a'') MNull MNull BLACK 1, m_compareFn = number_compare\<rparr>
       2 (Defined ''b'') =
     Returned () \<lparr>m_root = MNode 2 (Defined ''b'') (MNode 1 (Defined ''a'') MNull MNull RED 1) MNull BLACK 1,
                  m_compareFn = number_compare\<rparr> \<and>
   SortedMap_size \<lparr>m_root = MNode 2 (Defined ''b'') (MNode 1 (Defined ''a'') MNull MNull RED 1) MNull BLACK 1,
                   m_compareFn = number_compare\<rparr> = 1 \<and>
   SortedMap_get \<lparr>m_root = MNode 2 (Defined ''b'') (MNode 1 (Defined ''a'') MNull MNull RED 1) MNull BLACK 1,
                   m_compareFn = number_compare\<rparr> 1 = Defined ''a'' \<and>
   SortedMap_get \<lparr>m_root = MNode 2 (Defined ''b'') (MNode 1 (Defined ''a'') MNull MNull RED 1) MNull BLACK 1,
                   m_compareFn = number_compare\<rparr> 2 = Defined ''b''"
  by (simp add: SortedMap_set_def SortedMap_new_def SortedMap_size_def SortedMap_get_def number_compare_def)

text \<open>
  C3. \<^verbatim>\<open>balance\<close> rotates left, rotates right and flips colours under the three
  conditions, in this order, and recomputes the size of the root before returning it.
  The three steps are the function; the size is not recomputed: on the black node 1
  whose right child is the new red leaf 2, the node that \<^verbatim>\<open>insert\<close> hands to
  \<^verbatim>\<open>balance\<close> in \<^verbatim>\<open>add(1); add(2)\<close>, the returned root keeps \<^verbatim>\<open>size\<close> 1 with one node
  below it.
\<close>

theorem balance_keeps_stale_size:
  "balance (Node (1::int) Null (Node 2 Null Null RED 1) BLACK 1) =
     Inr (Node 2 (Node 1 Null Null RED 1) Null BLACK 1) \<and>
   size_of (Node 2 (Node (1::int) Null Null RED 1) Null BLACK 1) \<noteq>
     size_of (Node (1::int) Null Null RED 1) + size_of (Null :: int node) + 1"
  by (simp add: balance.simps)

text \<open>
  C4. \<^verbatim>\<open>delete(k)\<close> of a present key returns true, makes \<^verbatim>\<open>has(k)\<close> false and
  decreases \<^verbatim>\<open>size()\<close> by exactly 1; of an absent key it returns false and changes
  nothing. In the set reached by \<^verbatim>\<open>add(1); add(2)\<close>, \<^verbatim>\<open>delete(1)\<close> returns true and
  \<^verbatim>\<open>has(1)\<close> becomes false, and \<^verbatim>\<open>size()\<close> is 1 before the call and 1 after it.
\<close>

theorem SortedSet_delete_size_unchanged:
  "SortedSet_size \<lparr>s_root = Node 2 (Node 1 Null Null RED 1) Null BLACK 1, s_compareFn = number_compare\<rparr> = 1 \<and>
   SortedSet_has \<lparr>s_root = Node 2 (Node 1 Null Null RED 1) Null BLACK 1, s_compareFn = number_compare\<rparr> 1 \<and>
   SortedSet_delete \<lparr>s_root = Node 2 (Node 1 Null Null RED 1) Null BLACK 1, s_compareFn = number_compare\<rparr> 1 =
     Returned True \<lparr>s_root = Node 2 Null Null BLACK 1, s_compareFn = number_compare\<rparr> \<and>
   SortedSet_size \<lparr>s_root = Node 2 Null Null BLACK 1, s_compareFn = number_compare\<rparr> = 1 \<and>
   \<not> SortedSet_has \<lparr>s_root = Node 2 Null Null BLACK 1, s_compareFn = number_compare\<rparr> 1"
  by (simp add: SortedSet_delete_def SortedSet_has_def SortedSet_size_def number_compare_def balance.simps)

section \<open>The empty container\<close>

text \<open>
  C7. On a new container \<^verbatim>\<open>min()\<close>, \<^verbatim>\<open>max()\<close>, \<^verbatim>\<open>deleteMin()\<close>, \<^verbatim>\<open>deleteMax()\<close>,
  \<^verbatim>\<open>floor(x)\<close> and \<^verbatim>\<open>ceiling(x)\<close> each throw the error of the empty container, for every
  argument, and leave the container as it was. Set and map.
\<close>

theorem empty_container_fails:
  "SortedSet_min (SortedSet_new compareFn) =
     Thrown (NoSuchElementError ''Sorted set is empty'') (SortedSet_new compareFn) \<and>
   SortedSet_max (SortedSet_new compareFn) =
     Thrown (NoSuchElementError ''Sorted set is empty'') (SortedSet_new compareFn) \<and>
   SortedSet_deleteMin (SortedSet_new compareFn) =
     Thrown (NoSuchElementError ''Sorted set is empty'') (SortedSet_new compareFn) \<and>
   SortedSet_deleteMax (SortedSet_new compareFn) =
     Thrown (NoSuchElementError ''Sorted set is empty'') (SortedSet_new compareFn) \<and>
   SortedSet_floor (SortedSet_new compareFn) x =
     Thrown (NoSuchElementError ''Sorted set is empty'') (SortedSet_new compareFn) \<and>
   SortedSet_ceiling (SortedSet_new compareFn) x =
     Thrown (NoSuchElementError ''Sorted set is empty'') (SortedSet_new compareFn) \<and>
   SortedMap_min (SortedMap_new keyCompareFn) =
     Thrown (NoSuchElementError ''Sorted map is empty'') (SortedMap_new keyCompareFn) \<and>
   SortedMap_max (SortedMap_new keyCompareFn) =
     Thrown (NoSuchElementError ''Sorted map is empty'') (SortedMap_new keyCompareFn) \<and>
   SortedMap_deleteMin (SortedMap_new keyCompareFn) =
     Thrown (NoSuchElementError ''Sorted map is empty'') (SortedMap_new keyCompareFn) \<and>
   SortedMap_deleteMax (SortedMap_new keyCompareFn) =
     Thrown (NoSuchElementError ''Sorted map is empty'') (SortedMap_new keyCompareFn) \<and>
   SortedMap_floor (SortedMap_new keyCompareFn) k =
     Thrown (NoSuchElementError ''Sorted map is empty'') (SortedMap_new keyCompareFn) \<and>
   SortedMap_ceiling (SortedMap_new keyCompareFn) k =
     Thrown (NoSuchElementError ''Sorted map is empty'') (SortedMap_new keyCompareFn)"
  by (simp add: SortedSet_min_def SortedSet_max_def SortedSet_deleteMin_def SortedSet_deleteMax_def
      SortedSet_floor_def SortedSet_ceiling_def SortedSet_isEmpty_def SortedSet_new_def
      SortedMap_min_def SortedMap_max_def SortedMap_deleteMin_def SortedMap_deleteMax_def
      SortedMap_floor_def SortedMap_ceiling_def SortedMap_isEmpty_def SortedMap_new_def)

section \<open>has and get on the map\<close>

text \<open>
  C10. \<^verbatim>\<open>has(k)\<close> is decided by the comparator search, not by \<^verbatim>\<open>get\<close>: after
  \<^verbatim>\<open>set(k, undefined)\<close> on a new map, \<^verbatim>\<open>has(k)\<close> is true and \<^verbatim>\<open>get(k)\<close> is
  \<^verbatim>\<open>undefined\<close>, the value \<^verbatim>\<open>get(k)\<close> also has on the new map, where \<^verbatim>\<open>has(k)\<close> is false.
\<close>

theorem has_true_get_undefined:
  assumes "compareFn k k = 0"
  shows "SortedMap_set (SortedMap_new compareFn) k (Undefined :: 'v js) =
           Returned () \<lparr>m_root = MNode k Undefined MNull MNull BLACK 1, m_compareFn = compareFn\<rparr> \<and>
         SortedMap_has \<lparr>m_root = MNode k (Undefined :: 'v js) MNull MNull BLACK 1, m_compareFn = compareFn\<rparr> k \<and>
         SortedMap_get \<lparr>m_root = MNode k (Undefined :: 'v js) MNull MNull BLACK 1, m_compareFn = compareFn\<rparr> k
           = Undefined \<and>
         SortedMap_get (SortedMap_new compareFn) k = (Undefined :: 'v js) \<and>
         \<not> SortedMap_has (SortedMap_new compareFn :: ('k, 'v js) SortedMap) k"
  using assms
  by (simp add: SortedMap_set_def SortedMap_new_def SortedMap_has_def SortedMap_get_def)

theorem has_true_get_undefined_witness:
  "number_compare 1 1 = 0 \<and>
   SortedMap_set (SortedMap_new number_compare) 1 (Undefined :: string js) =
           Returned () \<lparr>m_root = MNode 1 Undefined MNull MNull BLACK 1, m_compareFn = number_compare\<rparr> \<and>
   SortedMap_has \<lparr>m_root = MNode 1 (Undefined :: string js) MNull MNull BLACK 1, m_compareFn = number_compare\<rparr> 1 \<and>
   SortedMap_get \<lparr>m_root = MNode 1 (Undefined :: string js) MNull MNull BLACK 1, m_compareFn = number_compare\<rparr> 1
     = Undefined"
proof -
  have h: "number_compare 1 1 = 0" by (simp add: number_compare_def)
  from has_true_get_undefined [where ?'v = string, of number_compare 1] h show ?thesis by simp
qed

section \<open>The assertions of the helpers\<close>

text \<open>
  C6. For every sequence of public calls, the assertions inside \<^verbatim>\<open>deleteMin\<close>,
  \<^verbatim>\<open>deleteMax\<close>, \<^verbatim>\<open>remove\<close>, \<^verbatim>\<open>rotateLeft\<close>, \<^verbatim>\<open>rotateRight\<close>, \<^verbatim>\<open>flipColors\<close>,
  \<^verbatim>\<open>moveRedLeft\<close> and \<^verbatim>\<open>moveRedRight\<close> never fire: the class paints the root red before
  a deletion when both its children are black, and checks membership before
  \<^verbatim>\<open>remove\<close>. In the model a failed assertion (or an access on \<^verbatim>\<open>null\<close>) in a helper
  aborts the call and ends the run with the error; under the comparator contract every
  run from the new set, and every run from the new map, ends in a container.
\<close>

theorem assertions_never_fire:
  assumes "valid_compareFn compareFn"
  shows "(\<exists>this. SortedSet_run (SortedSet_new compareFn) calls = Inr this) \<and>
         (\<exists>this. SortedMap_run (SortedMap_new compareFn) mcalls = Inr this)"
  using SortedSet_run_ok[OF set_ok_new[OF assms], of calls] SortedMap_run_ok[OF assms, of mcalls]
  by blast

theorem assertions_never_fire_witness:
  "valid_compareFn number_compare \<and>
   (\<exists>this. SortedSet_run (SortedSet_new number_compare)
      [Call_add 8, Call_add 5, Call_add 1, Call_add 4, Call_delete 1, Call_deleteMin,
       Call_deleteMax, Call_min, Call_floor 3, Call_delete 7] = Inr this) \<and>
   (\<exists>this. SortedMap_run (SortedMap_new number_compare)
      [MCall_set 8 (Defined ''h''), MCall_set 5 Undefined, MCall_set 1 (Defined ''a''),
       MCall_get 5, MCall_delete 8, MCall_deleteMax, MCall_deleteMin, MCall_min,
       MCall_set 4 (Defined ''d''), MCall_ceiling 3, MCall_delete 7] = Inr this)"
  using assertions_never_fire [OF valid_number_compare] valid_number_compare by blast


section \<open>Adding a value that is present\<close>

text \<open>
  C9. In the sorted set, \<^verbatim>\<open>add(v)\<close> when the comparator finds \<^verbatim>\<open>v\<close> in the set changes
  nothing: the call returns the very container it was made on, so \<^verbatim>\<open>size()\<close>, the
  membership of every element and the in-order sequence are as before; and after any
  \<^verbatim>\<open>add(v)\<close> a second \<^verbatim>\<open>add(v)\<close> returns the container the first one left. For every
  container reached from the new set by public calls.
\<close>

theorem add_present_noop:
  assumes V: "valid_compareFn compareFn"
    and R: "SortedSet_run (SortedSet_new compareFn) calls = Inr this"
  shows "(SortedSet_has this v \<longrightarrow> SortedSet_add this v = Returned () this) \<and>
         (\<exists>this'. SortedSet_add this v = Returned () this' \<and> SortedSet_has this' v \<and>
                  SortedSet_add this' v = Returned () this')"
proof -
  from SortedSet_run_ok[OF set_ok_new[OF V], of calls] R have ok: "set_ok this" by auto
  from SortedSet_add_ok[OF ok, of v] obtain this' where
    a: "SortedSet_add this v = Returned () this'" and ok': "set_ok this'"
    and c: "s_compareFn this' = s_compareFn this"
    and i: "inorder (s_root this') = ins_list (s_compareFn this) v (inorder (s_root this))"
    by blast
  from ok have V': "valid_compareFn (s_compareFn this)" by (simp add: set_ok_def)
  have h: "SortedSet_has this' v"
    using set_ok_has[OF ok', of v] ins_list_mem[OF V', of v "inorder (s_root this)"] i c by simp
  from a h SortedSet_add_present[OF ok' h] SortedSet_add_present[OF ok]
  show ?thesis by blast
qed

theorem add_present_noop_witness:
  "valid_compareFn number_compare \<and>
   SortedSet_run (SortedSet_new number_compare) [Call_add 1, Call_add 2] =
     Inr \<lparr>s_root = Node 2 (Node 1 Null Null RED 1) Null BLACK 1, s_compareFn = number_compare\<rparr> \<and>
   SortedSet_has \<lparr>s_root = Node 2 (Node 1 Null Null RED 1) Null BLACK 1, s_compareFn = number_compare\<rparr> 1 \<and>
   SortedSet_add \<lparr>s_root = Node 2 (Node 1 Null Null RED 1) Null BLACK 1, s_compareFn = number_compare\<rparr> 1 =
     Returned () \<lparr>s_root = Node 2 (Node 1 Null Null RED 1) Null BLACK 1, s_compareFn = number_compare\<rparr>"
proof -
  have r: "SortedSet_run (SortedSet_new number_compare) [Call_add 1, Call_add 2] =
     Inr \<lparr>s_root = Node 2 (Node 1 Null Null RED 1) Null BLACK 1, s_compareFn = number_compare\<rparr>"
    by (simp add: SortedSet_add_def SortedSet_new_def number_compare_def balance.simps)
  have h: "SortedSet_has \<lparr>s_root = Node 2 (Node 1 Null Null RED 1) Null BLACK 1,
                          s_compareFn = number_compare\<rparr> 1"
    by (simp add: SortedSet_has_def number_compare_def)
  from add_present_noop [OF valid_number_compare r, of 1] h valid_number_compare r
  show ?thesis by blast
qed

section \<open>Minimum, maximum, floor and ceiling\<close>

text \<open>
  The four queries on a non-empty container whose tree is in search-tree order, first for
  the set and then for the map. Values that compare equal are the same stored value, since
  the in-order sequence is strictly increasing.
\<close>

lemma values_unique:
  assumes V: "valid_compareFn cmp" and B: "bst_order cmp t"
    and "a \<in> set_node t" and "b \<in> set_node t" and "cmp a b = 0"
  shows "a = b"
proof -
  have "ordered cmp (inorder t)" using B bst_order_iff[OF V, of t] by simp
  from ordered_unique[OF V this, of a b] assms(3-5) show ?thesis by (simp add: set_inorder)
qed

lemma SortedSet_order_statistics:
  assumes V: "valid_compareFn (s_compareFn this)"
    and B: "bst_order (s_compareFn this) (s_root this)"
    and N: "\<not> SortedSet_isEmpty this"
  shows "(\<exists>k. SortedSet_min this = Returned k this \<and> k \<in> set_node (s_root this) \<and>
              (\<forall>y \<in> set_node (s_root this). s_compareFn this k y \<le> 0)) \<and>
         (\<exists>k. SortedSet_max this = Returned k this \<and> k \<in> set_node (s_root this) \<and>
              (\<forall>y \<in> set_node (s_root this). s_compareFn this y k \<le> 0)) \<and>
         ((\<exists>k. SortedSet_floor this x = Returned k this \<and> k \<in> set_node (s_root this) \<and>
               s_compareFn this k x \<le> 0 \<and>
               (\<forall>y \<in> set_node (s_root this).
                  s_compareFn this y x \<le> 0 \<longrightarrow> s_compareFn this y k \<le> 0) \<and>
               (\<forall>y \<in> set_node (s_root this). s_compareFn this x y = 0 \<longrightarrow> k = y)) \<or>
          (SortedSet_floor this x = Thrown (NoSuchElementError ''Value is too small'') this \<and>
           (\<forall>y \<in> set_node (s_root this). \<not> s_compareFn this y x \<le> 0))) \<and>
         ((\<exists>k. SortedSet_ceiling this x = Returned k this \<and> k \<in> set_node (s_root this) \<and>
               s_compareFn this x k \<le> 0 \<and>
               (\<forall>y \<in> set_node (s_root this).
                  s_compareFn this x y \<le> 0 \<longrightarrow> s_compareFn this k y \<le> 0) \<and>
               (\<forall>y \<in> set_node (s_root this). s_compareFn this x y = 0 \<longrightarrow> k = y)) \<or>
          (SortedSet_ceiling this x = Thrown (NoSuchElementError ''Value is too small'') this \<and>
           (\<forall>y \<in> set_node (s_root this). \<not> s_compareFn this x y \<le> 0)))"
proof -
  let ?cmp = "s_compareFn this" and ?t = "s_root this"
  from N have nn: "?t \<noteq> Null" by (simp add: SortedSet_isEmpty_def)
  have le_iff: "\<And>a b. (?cmp a b \<le> 0) = (0 \<le> ?cmp b a)" using cmp_ge_iff[OF V] by auto
  have eq_le: "\<And>a b. ?cmp a b = 0 \<Longrightarrow> ?cmp a b \<le> 0 \<and> ?cmp b a \<le> 0"
    using cmp_eq_sym[OF V] by auto
  have anti: "\<And>a b. ?cmp a b \<le> 0 \<Longrightarrow> ?cmp b a \<le> 0 \<Longrightarrow> ?cmp a b = 0"
  proof -
    fix a b assume ab: "?cmp a b \<le> 0" and ba: "?cmp b a \<le> 0"
    have "\<not> ?cmp a b < 0" using cmp_gt_iff[OF V, of b a] ba by simp
    with ab show "?cmp a b = 0" by simp
  qed
  have 1: "\<exists>k. SortedSet_min this = Returned k this \<and> k \<in> set_node ?t \<and>
              (\<forall>y \<in> set_node ?t. ?cmp k y \<le> 0)"
    using min_node_correct[OF V B nn] nn
    by (auto simp: SortedSet_min_def SortedSet_isEmpty_def)
  have 2: "\<exists>k. SortedSet_max this = Returned k this \<and> k \<in> set_node ?t \<and>
              (\<forall>y \<in> set_node ?t. ?cmp y k \<le> 0)"
    using max_node_correct[OF V B nn] nn
    by (auto simp: SortedSet_max_def SortedSet_isEmpty_def)
  have 3: "(\<exists>k. SortedSet_floor this x = Returned k this \<and> k \<in> set_node ?t \<and>
               ?cmp k x \<le> 0 \<and>
               (\<forall>y \<in> set_node ?t. ?cmp y x \<le> 0 \<longrightarrow> ?cmp y k \<le> 0) \<and>
               (\<forall>y \<in> set_node ?t. ?cmp x y = 0 \<longrightarrow> k = y)) \<or>
          (SortedSet_floor this x = Thrown (NoSuchElementError ''Value is too small'') this \<and>
           (\<forall>y \<in> set_node ?t. \<not> ?cmp y x \<le> 0))"
  proof (cases "floor_node ?cmp ?t x")
    case Null
    with floor_node_correct[OF V B, of x] have "\<forall>y \<in> set_node ?t. ?cmp x y < 0" by simp
    then have "\<forall>y \<in> set_node ?t. \<not> ?cmp y x \<le> 0" using le_iff by force
    with Null nn show ?thesis by (simp add: SortedSet_floor_def SortedSet_isEmpty_def)
  next
    case (Node k l r c s)
    with floor_node_correct[OF V B, of x] have f: "k \<in> set_node ?t" "?cmp k x \<le> 0"
      "\<forall>y \<in> set_node ?t. ?cmp y x \<le> 0 \<longrightarrow> ?cmp y k \<le> 0" by simp_all
    have "\<forall>y \<in> set_node ?t. ?cmp x y = 0 \<longrightarrow> k = y"
    proof (intro ballI impI)
      fix y assume y: "y \<in> set_node ?t" "?cmp x y = 0"
      from eq_le[OF y(2)] f(3) y(1) have yk: "?cmp y k \<le> 0" by blast
      from eq_le[OF y(2)] f(2) have "?cmp k y \<le> 0" using cmp_le_trans[OF V] by blast
      from anti[OF this yk] values_unique[OF V B f(1) y(1)] show "k = y" by simp
    qed
    with f Node nn show ?thesis by (simp add: SortedSet_floor_def SortedSet_isEmpty_def)
  qed
  have 4: "(\<exists>k. SortedSet_ceiling this x = Returned k this \<and> k \<in> set_node ?t \<and>
               ?cmp x k \<le> 0 \<and>
               (\<forall>y \<in> set_node ?t. ?cmp x y \<le> 0 \<longrightarrow> ?cmp k y \<le> 0) \<and>
               (\<forall>y \<in> set_node ?t. ?cmp x y = 0 \<longrightarrow> k = y)) \<or>
          (SortedSet_ceiling this x = Thrown (NoSuchElementError ''Value is too small'') this \<and>
           (\<forall>y \<in> set_node ?t. \<not> ?cmp x y \<le> 0))"
  proof (cases "ceiling_node ?cmp ?t x")
    case Null
    with ceiling_node_correct[OF V B, of x] have "\<forall>y \<in> set_node ?t. ?cmp y x < 0" by simp
    then have "\<forall>y \<in> set_node ?t. \<not> ?cmp x y \<le> 0" using le_iff by force
    with Null nn show ?thesis by (simp add: SortedSet_ceiling_def SortedSet_isEmpty_def)
  next
    case (Node k l r c s)
    with ceiling_node_correct[OF V B, of x] have f: "k \<in> set_node ?t" "?cmp x k \<le> 0"
      "\<forall>y \<in> set_node ?t. ?cmp x y \<le> 0 \<longrightarrow> ?cmp k y \<le> 0" by simp_all
    have "\<forall>y \<in> set_node ?t. ?cmp x y = 0 \<longrightarrow> k = y"
    proof (intro ballI impI)
      fix y assume y: "y \<in> set_node ?t" "?cmp x y = 0"
      from eq_le[OF y(2)] f(3) y(1) have ky: "?cmp k y \<le> 0" by blast
      from eq_le[OF y(2)] f(2) have "?cmp y k \<le> 0" using cmp_le_trans[OF V] by blast
      from anti[OF ky this] values_unique[OF V B f(1) y(1)] show "k = y" by simp
    qed
    with f Node nn show ?thesis by (simp add: SortedSet_ceiling_def SortedSet_isEmpty_def)
  qed
  from 1 2 3 4 show ?thesis by blast
qed

lemma SortedMap_order_statistics:
  assumes V: "valid_compareFn (m_compareFn this)"
    and B: "map_bst_order (m_compareFn this) (m_root this)"
    and N: "\<not> SortedMap_isEmpty this"
  shows "(\<exists>k. SortedMap_min this = Returned k this \<and> k \<in> set1_mnode (m_root this) \<and>
              (\<forall>y \<in> set1_mnode (m_root this). m_compareFn this k y \<le> 0)) \<and>
         (\<exists>k. SortedMap_max this = Returned k this \<and> k \<in> set1_mnode (m_root this) \<and>
              (\<forall>y \<in> set1_mnode (m_root this). m_compareFn this y k \<le> 0)) \<and>
         ((\<exists>k. SortedMap_floor this x = Returned k this \<and> k \<in> set1_mnode (m_root this) \<and>
               m_compareFn this k x \<le> 0 \<and>
               (\<forall>y \<in> set1_mnode (m_root this).
                  m_compareFn this y x \<le> 0 \<longrightarrow> m_compareFn this y k \<le> 0) \<and>
               (\<forall>y \<in> set1_mnode (m_root this). m_compareFn this x y = 0 \<longrightarrow> k = y)) \<or>
          (SortedMap_floor this x = Thrown (NoSuchElementError ''Key is too small'') this \<and>
           (\<forall>y \<in> set1_mnode (m_root this). \<not> m_compareFn this y x \<le> 0))) \<and>
         ((\<exists>k. SortedMap_ceiling this x = Returned k this \<and> k \<in> set1_mnode (m_root this) \<and>
               m_compareFn this x k \<le> 0 \<and>
               (\<forall>y \<in> set1_mnode (m_root this).
                  m_compareFn this x y \<le> 0 \<longrightarrow> m_compareFn this k y \<le> 0) \<and>
               (\<forall>y \<in> set1_mnode (m_root this). m_compareFn this x y = 0 \<longrightarrow> k = y)) \<or>
          (SortedMap_ceiling this x = Thrown (NoSuchElementError ''Key is too small'') this \<and>
           (\<forall>y \<in> set1_mnode (m_root this). \<not> m_compareFn this x y \<le> 0)))"
proof -
  let ?cmp = "m_compareFn this" and ?t = "m_root this"
  from N have nn: "?t \<noteq> MNull" by (simp add: SortedMap_isEmpty_def)
  have le_iff: "\<And>a b. (?cmp a b \<le> 0) = (0 \<le> ?cmp b a)" using cmp_ge_iff[OF V] by auto
  have eq_le: "\<And>a b. ?cmp a b = 0 \<Longrightarrow> ?cmp a b \<le> 0 \<and> ?cmp b a \<le> 0"
    using cmp_eq_sym[OF V] by auto
  have anti: "\<And>a b. ?cmp a b \<le> 0 \<Longrightarrow> ?cmp b a \<le> 0 \<Longrightarrow> ?cmp a b = 0"
  proof -
    fix a b assume ab: "?cmp a b \<le> 0" and ba: "?cmp b a \<le> 0"
    have "\<not> ?cmp a b < 0" using cmp_gt_iff[OF V, of b a] ba by simp
    with ab show "?cmp a b = 0" by simp
  qed
  have 1: "\<exists>k. SortedMap_min this = Returned k this \<and> k \<in> set1_mnode ?t \<and>
              (\<forall>y \<in> set1_mnode ?t. ?cmp k y \<le> 0)"
    using map_min_node_correct[OF V B nn] nn
    by (auto simp: SortedMap_min_def SortedMap_isEmpty_def)
  have 2: "\<exists>k. SortedMap_max this = Returned k this \<and> k \<in> set1_mnode ?t \<and>
              (\<forall>y \<in> set1_mnode ?t. ?cmp y k \<le> 0)"
    using map_max_node_correct[OF V B nn] nn
    by (auto simp: SortedMap_max_def SortedMap_isEmpty_def)
  have 3: "(\<exists>k. SortedMap_floor this x = Returned k this \<and> k \<in> set1_mnode ?t \<and>
               ?cmp k x \<le> 0 \<and>
               (\<forall>y \<in> set1_mnode ?t. ?cmp y x \<le> 0 \<longrightarrow> ?cmp y k \<le> 0) \<and>
               (\<forall>y \<in> set1_mnode ?t. ?cmp x y = 0 \<longrightarrow> k = y)) \<or>
          (SortedMap_floor this x = Thrown (NoSuchElementError ''Key is too small'') this \<and>
           (\<forall>y \<in> set1_mnode ?t. \<not> ?cmp y x \<le> 0))"
  proof (cases "map_floor_node ?cmp ?t x")
    case MNull
    with map_floor_node_correct[OF V B, of x] have "\<forall>y \<in> set1_mnode ?t. ?cmp x y < 0" by simp
    then have "\<forall>y \<in> set1_mnode ?t. \<not> ?cmp y x \<le> 0" using le_iff by force
    with MNull nn show ?thesis by (simp add: SortedMap_floor_def SortedMap_isEmpty_def)
  next
    case (MNode k v l r c s)
    with map_floor_node_correct[OF V B, of x] have f: "k \<in> set1_mnode ?t" "?cmp k x \<le> 0"
      "\<forall>y \<in> set1_mnode ?t. ?cmp y x \<le> 0 \<longrightarrow> ?cmp y k \<le> 0" by simp_all
    have "\<forall>y \<in> set1_mnode ?t. ?cmp x y = 0 \<longrightarrow> k = y"
    proof (intro ballI impI)
      fix y assume y: "y \<in> set1_mnode ?t" "?cmp x y = 0"
      from eq_le[OF y(2)] f(3) y(1) have yk: "?cmp y k \<le> 0" by blast
      from eq_le[OF y(2)] f(2) have "?cmp k y \<le> 0" using cmp_le_trans[OF V] by blast
      from anti[OF this yk] map_keys_unique[OF V B f(1) y(1)] show "k = y" by simp
    qed
    with f MNode nn show ?thesis by (simp add: SortedMap_floor_def SortedMap_isEmpty_def)
  qed
  have 4: "(\<exists>k. SortedMap_ceiling this x = Returned k this \<and> k \<in> set1_mnode ?t \<and>
               ?cmp x k \<le> 0 \<and>
               (\<forall>y \<in> set1_mnode ?t. ?cmp x y \<le> 0 \<longrightarrow> ?cmp k y \<le> 0) \<and>
               (\<forall>y \<in> set1_mnode ?t. ?cmp x y = 0 \<longrightarrow> k = y)) \<or>
          (SortedMap_ceiling this x = Thrown (NoSuchElementError ''Key is too small'') this \<and>
           (\<forall>y \<in> set1_mnode ?t. \<not> ?cmp x y \<le> 0))"
  proof (cases "map_ceiling_node ?cmp ?t x")
    case MNull
    with map_ceiling_node_correct[OF V B, of x] have "\<forall>y \<in> set1_mnode ?t. ?cmp y x < 0" by simp
    then have "\<forall>y \<in> set1_mnode ?t. \<not> ?cmp x y \<le> 0" using le_iff by force
    with MNull nn show ?thesis by (simp add: SortedMap_ceiling_def SortedMap_isEmpty_def)
  next
    case (MNode k v l r c s)
    with map_ceiling_node_correct[OF V B, of x] have f: "k \<in> set1_mnode ?t" "?cmp x k \<le> 0"
      "\<forall>y \<in> set1_mnode ?t. ?cmp x y \<le> 0 \<longrightarrow> ?cmp k y \<le> 0" by simp_all
    have "\<forall>y \<in> set1_mnode ?t. ?cmp x y = 0 \<longrightarrow> k = y"
    proof (intro ballI impI)
      fix y assume y: "y \<in> set1_mnode ?t" "?cmp x y = 0"
      from eq_le[OF y(2)] f(3) y(1) have ky: "?cmp k y \<le> 0" by blast
      from eq_le[OF y(2)] f(2) have "?cmp y k \<le> 0" using cmp_le_trans[OF V] by blast
      from anti[OF ky this] map_keys_unique[OF V B f(1) y(1)] show "k = y" by simp
    qed
    with f MNode nn show ?thesis by (simp add: SortedMap_ceiling_def SortedMap_isEmpty_def)
  qed
  from 1 2 3 4 show ?thesis by blast
qed

text \<open>
  C5. For every non-empty container in search-tree order, set or map: \<^verbatim>\<open>min()\<close> is less
  than or equal to every stored key and \<^verbatim>\<open>max()\<close> greater than or equal to every stored
  key; \<^verbatim>\<open>floor(x)\<close> returns the largest stored key that is less than or equal to \<^verbatim>\<open>x\<close>
  and fails (with the error of the missing bound) exactly when no stored key is;
  \<^verbatim>\<open>ceiling(x)\<close> the smallest stored key greater than or equal to \<^verbatim>\<open>x\<close>, failing when
  there is none; and when a stored key compares equal to \<^verbatim>\<open>x\<close>, both return that key.
  None of the four changes the container. The first half is the set \<open>that\<close> asked for
  \<open>v\<close>, the second the map \<open>this\<close> asked for \<open>x\<close>.
\<close>

theorem order_statistics_correct:
  "(valid_compareFn (s_compareFn that) \<and> bst_order (s_compareFn that) (s_root that) \<and>
    \<not> SortedSet_isEmpty that \<longrightarrow>
    (\<exists>k. SortedSet_min that = Returned k that \<and> k \<in> set_node (s_root that) \<and>
         (\<forall>y \<in> set_node (s_root that). s_compareFn that k y \<le> 0)) \<and>
    (\<exists>k. SortedSet_max that = Returned k that \<and> k \<in> set_node (s_root that) \<and>
         (\<forall>y \<in> set_node (s_root that). s_compareFn that y k \<le> 0)) \<and>
    ((\<exists>k. SortedSet_floor that v = Returned k that \<and> k \<in> set_node (s_root that) \<and>
          s_compareFn that k v \<le> 0 \<and>
          (\<forall>y \<in> set_node (s_root that).
             s_compareFn that y v \<le> 0 \<longrightarrow> s_compareFn that y k \<le> 0) \<and>
          (\<forall>y \<in> set_node (s_root that). s_compareFn that v y = 0 \<longrightarrow> k = y)) \<or>
     (SortedSet_floor that v = Thrown (NoSuchElementError ''Value is too small'') that \<and>
      (\<forall>y \<in> set_node (s_root that). \<not> s_compareFn that y v \<le> 0))) \<and>
    ((\<exists>k. SortedSet_ceiling that v = Returned k that \<and> k \<in> set_node (s_root that) \<and>
          s_compareFn that v k \<le> 0 \<and>
          (\<forall>y \<in> set_node (s_root that).
             s_compareFn that v y \<le> 0 \<longrightarrow> s_compareFn that k y \<le> 0) \<and>
          (\<forall>y \<in> set_node (s_root that). s_compareFn that v y = 0 \<longrightarrow> k = y)) \<or>
     (SortedSet_ceiling that v = Thrown (NoSuchElementError ''Value is too small'') that \<and>
      (\<forall>y \<in> set_node (s_root that). \<not> s_compareFn that v y \<le> 0)))) \<and>
   (valid_compareFn (m_compareFn this) \<and> map_bst_order (m_compareFn this) (m_root this) \<and>
    \<not> SortedMap_isEmpty this \<longrightarrow>
    (\<exists>k. SortedMap_min this = Returned k this \<and> k \<in> set1_mnode (m_root this) \<and>
         (\<forall>y \<in> set1_mnode (m_root this). m_compareFn this k y \<le> 0)) \<and>
    (\<exists>k. SortedMap_max this = Returned k this \<and> k \<in> set1_mnode (m_root this) \<and>
         (\<forall>y \<in> set1_mnode (m_root this). m_compareFn this y k \<le> 0)) \<and>
    ((\<exists>k. SortedMap_floor this x = Returned k this \<and> k \<in> set1_mnode (m_root this) \<and>
          m_compareFn this k x \<le> 0 \<and>
          (\<forall>y \<in> set1_mnode (m_root this).
             m_compareFn this y x \<le> 0 \<longrightarrow> m_compareFn this y k \<le> 0) \<and>
          (\<forall>y \<in> set1_mnode (m_root this). m_compareFn this x y = 0 \<longrightarrow> k = y)) \<or>
     (SortedMap_floor this x = Thrown (NoSuchElementError ''Key is too small'') this \<and>
      (\<forall>y \<in> set1_mnode (m_root this). \<not> m_compareFn this y x \<le> 0))) \<and>
    ((\<exists>k. SortedMap_ceiling this x = Returned k this \<and> k \<in> set1_mnode (m_root this) \<and>
          m_compareFn this x k \<le> 0 \<and>
          (\<forall>y \<in> set1_mnode (m_root this).
             m_compareFn this x y \<le> 0 \<longrightarrow> m_compareFn this k y \<le> 0) \<and>
          (\<forall>y \<in> set1_mnode (m_root this). m_compareFn this x y = 0 \<longrightarrow> k = y)) \<or>
     (SortedMap_ceiling this x = Thrown (NoSuchElementError ''Key is too small'') this \<and>
      (\<forall>y \<in> set1_mnode (m_root this). \<not> m_compareFn this x y \<le> 0))))"
  apply (rule conjI)
   apply (rule impI, elim conjE, rule SortedSet_order_statistics; assumption)
  apply (rule impI, elim conjE, rule SortedMap_order_statistics; assumption)
  done

theorem order_statistics_correct_witness:
  "valid_compareFn number_compare \<and>
   SortedSet_run (SortedSet_new number_compare) [Call_add 25, Call_add 10, Call_add 40] = Inr
     \<lparr>s_root = Node 25 (Node 10 Null Null BLACK 1) (Node 40 Null Null BLACK 1) BLACK 1,
      s_compareFn = number_compare\<rparr> \<and>
   bst_order number_compare (Node 25 (Node 10 Null Null BLACK 1) (Node 40 Null Null BLACK 1) BLACK 1) \<and>
   \<not> SortedSet_isEmpty
     \<lparr>s_root = Node 25 (Node 10 Null Null BLACK 1) (Node 40 Null Null BLACK 1) BLACK 1,
      s_compareFn = number_compare\<rparr> \<and>
   SortedSet_min
     \<lparr>s_root = Node 25 (Node 10 Null Null BLACK 1) (Node 40 Null Null BLACK 1) BLACK 1,
      s_compareFn = number_compare\<rparr> = Returned 10
     \<lparr>s_root = Node 25 (Node 10 Null Null BLACK 1) (Node 40 Null Null BLACK 1) BLACK 1,
      s_compareFn = number_compare\<rparr> \<and>
   SortedSet_ceiling
     \<lparr>s_root = Node 25 (Node 10 Null Null BLACK 1) (Node 40 Null Null BLACK 1) BLACK 1,
      s_compareFn = number_compare\<rparr> 30 = Returned 40
     \<lparr>s_root = Node 25 (Node 10 Null Null BLACK 1) (Node 40 Null Null BLACK 1) BLACK 1,
      s_compareFn = number_compare\<rparr> \<and>
   SortedSet_ceiling
     \<lparr>s_root = Node 25 (Node 10 Null Null BLACK 1) (Node 40 Null Null BLACK 1) BLACK 1,
      s_compareFn = number_compare\<rparr> 41 = Thrown (NoSuchElementError ''Value is too small'')
     \<lparr>s_root = Node 25 (Node 10 Null Null BLACK 1) (Node 40 Null Null BLACK 1) BLACK 1,
      s_compareFn = number_compare\<rparr> \<and>
   (\<exists>k. SortedSet_max
     \<lparr>s_root = Node 25 (Node 10 Null Null BLACK 1) (Node 40 Null Null BLACK 1) BLACK 1,
      s_compareFn = number_compare\<rparr> = Returned k
     \<lparr>s_root = Node 25 (Node 10 Null Null BLACK 1) (Node 40 Null Null BLACK 1) BLACK 1,
      s_compareFn = number_compare\<rparr>) \<and>
   SortedMap_run (SortedMap_new number_compare)
     [MCall_set 25 (Defined ''b''), MCall_set 10 (Defined ''a''), MCall_set 40 (Defined ''c'')] = Inr
     \<lparr>m_root = MNode 25 (Defined ''b'') (MNode 10 (Defined ''a'') MNull MNull BLACK 1) 
        (MNode 40 (Defined ''c'') MNull MNull BLACK 1) BLACK 1,
      m_compareFn = number_compare\<rparr> \<and>
   map_bst_order number_compare
     (MNode 25 (Defined ''b'') (MNode 10 (Defined ''a'') MNull MNull BLACK 1) 
        (MNode 40 (Defined ''c'') MNull MNull BLACK 1) BLACK 1) \<and>
   \<not> SortedMap_isEmpty
     \<lparr>m_root = MNode 25 (Defined ''b'') (MNode 10 (Defined ''a'') MNull MNull BLACK 1) 
        (MNode 40 (Defined ''c'') MNull MNull BLACK 1) BLACK 1,
      m_compareFn = number_compare\<rparr> \<and>
   SortedMap_min
     \<lparr>m_root = MNode 25 (Defined ''b'') (MNode 10 (Defined ''a'') MNull MNull BLACK 1) 
        (MNode 40 (Defined ''c'') MNull MNull BLACK 1) BLACK 1,
      m_compareFn = number_compare\<rparr> = Returned 10
     \<lparr>m_root = MNode 25 (Defined ''b'') (MNode 10 (Defined ''a'') MNull MNull BLACK 1) 
        (MNode 40 (Defined ''c'') MNull MNull BLACK 1) BLACK 1,
      m_compareFn = number_compare\<rparr> \<and>
   SortedMap_floor
     \<lparr>m_root = MNode 25 (Defined ''b'') (MNode 10 (Defined ''a'') MNull MNull BLACK 1) 
        (MNode 40 (Defined ''c'') MNull MNull BLACK 1) BLACK 1,
      m_compareFn = number_compare\<rparr> 30 = Returned 25
     \<lparr>m_root = MNode 25 (Defined ''b'') (MNode 10 (Defined ''a'') MNull MNull BLACK 1) 
        (MNode 40 (Defined ''c'') MNull MNull BLACK 1) BLACK 1,
      m_compareFn = number_compare\<rparr> \<and>
   SortedMap_floor
     \<lparr>m_root = MNode 25 (Defined ''b'') (MNode 10 (Defined ''a'') MNull MNull BLACK 1) 
        (MNode 40 (Defined ''c'') MNull MNull BLACK 1) BLACK 1,
      m_compareFn = number_compare\<rparr> 9 = Thrown (NoSuchElementError ''Key is too small'')
     \<lparr>m_root = MNode 25 (Defined ''b'') (MNode 10 (Defined ''a'') MNull MNull BLACK 1) 
        (MNode 40 (Defined ''c'') MNull MNull BLACK 1) BLACK 1,
      m_compareFn = number_compare\<rparr> \<and>
   (\<exists>k. SortedMap_max
     \<lparr>m_root = MNode 25 (Defined ''b'') (MNode 10 (Defined ''a'') MNull MNull BLACK 1) 
        (MNode 40 (Defined ''c'') MNull MNull BLACK 1) BLACK 1,
      m_compareFn = number_compare\<rparr> = Returned k
     \<lparr>m_root = MNode 25 (Defined ''b'') (MNode 10 (Defined ''a'') MNull MNull BLACK 1) 
        (MNode 40 (Defined ''c'') MNull MNull BLACK 1) BLACK 1,
      m_compareFn = number_compare\<rparr>)"
proof -
  let ?st = "Node (25::int) (Node 10 Null Null BLACK 1) (Node 40 Null Null BLACK 1) BLACK 1"
  let ?s = "\<lparr>s_root = ?st, s_compareFn = number_compare\<rparr>"
  let ?t = "MNode (25::int) (Defined ''b'') (MNode 10 (Defined ''a'') MNull MNull BLACK 1)
              (MNode 40 (Defined ''c'') MNull MNull BLACK 1) BLACK 1"
  let ?m = "\<lparr>m_root = ?t, m_compareFn = number_compare\<rparr>"
  have v: "valid_compareFn number_compare" by (rule valid_number_compare)
  have rs: "SortedSet_run (SortedSet_new number_compare) [Call_add 25, Call_add 10, Call_add 40] = Inr ?s"
    by (simp add: SortedSet_add_def SortedSet_new_def number_compare_def balance.simps)
  have rm: "SortedMap_run (SortedMap_new number_compare)
     [MCall_set 25 (Defined ''b''), MCall_set 10 (Defined ''a''), MCall_set 40 (Defined ''c'')] = Inr ?m"
    by (simp add: SortedMap_set_def SortedMap_new_def number_compare_def)
  have bs: "bst_order number_compare ?st" by (simp add: number_compare_def)
  have b: "map_bst_order number_compare ?t" by (simp add: number_compare_def)
  have ns: "\<not> SortedSet_isEmpty ?s" by (simp add: SortedSet_isEmpty_def)
  have nm: "\<not> SortedMap_isEmpty ?m" by (simp add: SortedMap_isEmpty_def)
  have hs: "valid_compareFn (s_compareFn ?s) \<and> bst_order (s_compareFn ?s) (s_root ?s) \<and>
    \<not> SortedSet_isEmpty ?s" using v bs ns by simp
  have hm: "valid_compareFn (m_compareFn ?m) \<and> map_bst_order (m_compareFn ?m) (m_root ?m) \<and>
    \<not> SortedMap_isEmpty ?m" using v b nm by simp
  note T = order_statistics_correct[of ?s 30 ?m 30]
  from T[THEN conjunct1, THEN mp, OF hs]
  have xs: "\<exists>k. SortedSet_max ?s = Returned k ?s" by blast
  from T[THEN conjunct2, THEN mp, OF hm]
  have xm: "\<exists>k. SortedMap_max ?m = Returned k ?m" by blast
  have s1: "SortedSet_min ?s = Returned 10 ?s"
    by (simp add: SortedSet_min_def SortedSet_isEmpty_def)
  have s2: "SortedSet_ceiling ?s 30 = Returned 40 ?s"
    by (simp add: SortedSet_ceiling_def SortedSet_isEmpty_def number_compare_def)
  have s3: "SortedSet_ceiling ?s 41 = Thrown (NoSuchElementError ''Value is too small'') ?s"
    by (simp add: SortedSet_ceiling_def SortedSet_isEmpty_def number_compare_def)
  have m1: "SortedMap_min ?m = Returned 10 ?m"
    by (simp add: SortedMap_min_def SortedMap_isEmpty_def)
  have m2: "SortedMap_floor ?m 30 = Returned 25 ?m"
    by (simp add: SortedMap_floor_def SortedMap_isEmpty_def number_compare_def)
  have m3: "SortedMap_floor ?m 9 = Thrown (NoSuchElementError ''Key is too small'') ?m"
    by (simp add: SortedMap_floor_def SortedMap_isEmpty_def number_compare_def)
  from v rs bs ns s1 s2 s3 xs rm b nm m1 m2 m3 xm show ?thesis by blast
qed

section \<open>Snapshots and iteration\<close>

text \<open>
  C8. The snapshot of a tree is its in-order sequence of values (of entries, for the
  map), in increasing order when the tree is in search-tree order; and it is a copy: an
  iterator that has taken its snapshot from a container yields the elements of that
  snapshot, whatever containers (after any \<^verbatim>\<open>add\<close> or \<^verbatim>\<open>set\<close>, \<^verbatim>\<open>delete\<close>,
  \<^verbatim>\<open>deleteMin\<close>, \<^verbatim>\<open>deleteMax\<close> or \<^verbatim>\<open>clear\<close>) the later calls of \<^verbatim>\<open>next()\<close> find.
  The first half is the set \<open>that\<close>, the second the map \<open>this\<close>.
\<close>

theorem snapshot_in_order_and_fixed:
  "createSnapshot (s_root that) = inorder (s_root that) \<and>
   SortedSet_drain (that # after) Suspended =
     take (Suc (length after)) (createSnapshot (s_root that)) \<and>
   (valid_compareFn (s_compareFn that) \<and> bst_order (s_compareFn that) (s_root that) \<longrightarrow>
      ordered (s_compareFn that) (createSnapshot (s_root that))) \<and>
   map_createSnapshot (m_root this) = entries (m_root this) \<and>
   SortedMap_drain (this # later) Suspended =
     take (Suc (length later)) (map_createSnapshot (m_root this)) \<and>
   (valid_compareFn (m_compareFn this) \<and> map_bst_order (m_compareFn this) (m_root this) \<longrightarrow>
      ordered (m_compareFn this) (map fst (map_createSnapshot (m_root this))))"
proof -
  have 1: "createSnapshot (s_root that) = inorder (s_root that)"
    by (rule createSnapshot_inorder)
  have 2: "SortedSet_drain (that # after) Suspended =
     take (Suc (length after)) (createSnapshot (s_root that))"
    by (rule set_drain_suspended)
  have 3: "valid_compareFn (s_compareFn that) \<and> bst_order (s_compareFn that) (s_root that) \<longrightarrow>
      ordered (s_compareFn that) (createSnapshot (s_root that))"
  proof
    assume h: "valid_compareFn (s_compareFn that) \<and> bst_order (s_compareFn that) (s_root that)"
    then have "ordered (s_compareFn that) (inorder (s_root that))"
      using bst_order_iff[of "s_compareFn that" "s_root that"] by blast
    then show "ordered (s_compareFn that) (createSnapshot (s_root that))"
      by (simp add: createSnapshot_inorder)
  qed
  have 4: "map_createSnapshot (m_root this) = entries (m_root this)"
    by (rule map_createSnapshot_entries)
  have 5: "SortedMap_drain (this # later) Suspended =
     take (Suc (length later)) (map_createSnapshot (m_root this))"
    by (rule drain_suspended)
  have 6: "valid_compareFn (m_compareFn this) \<and> map_bst_order (m_compareFn this) (m_root this) \<longrightarrow>
      ordered (m_compareFn this) (map fst (map_createSnapshot (m_root this)))"
  proof
    assume h: "valid_compareFn (m_compareFn this) \<and> map_bst_order (m_compareFn this) (m_root this)"
    then have "ordered (m_compareFn this) (inorder (keys_tree (m_root this)))"
      using bst_order_iff[of "m_compareFn this" "keys_tree (m_root this)"]
      by (simp add: keys_bst_order)
    then show "ordered (m_compareFn this) (map fst (map_createSnapshot (m_root this)))"
      by (simp add: map_createSnapshot_entries keys_inorder)
  qed
  from 1 2 3 4 5 6 show ?thesis by (intro conjI)
qed

theorem snapshot_in_order_and_fixed_witness:
  "valid_compareFn number_compare \<and>
   SortedSet_run (SortedSet_new number_compare) [Call_add 1, Call_add 2] =
     Inr \<lparr>s_root = Node 2 (Node 1 Null Null RED 1) Null BLACK 1, s_compareFn = number_compare\<rparr> \<and>
   bst_order number_compare (Node 2 (Node 1 Null Null RED 1) Null BLACK 1) \<and>
   createSnapshot (Node (2::int) (Node 1 Null Null RED 1) Null BLACK 1) = [1, 2] \<and>
   ordered number_compare (createSnapshot (Node 2 (Node 1 Null Null RED 1) Null BLACK 1)) \<and>
   SortedSet_drain
     [\<lparr>s_root = Node 2 (Node 1 Null Null RED 1) Null BLACK 1, s_compareFn = number_compare\<rparr>,
      \<lparr>s_root = Null, s_compareFn = number_compare\<rparr>,
      \<lparr>s_root = Node 7 Null Null BLACK 1, s_compareFn = number_compare\<rparr>] Suspended = [1, 2] \<and>
   map_bst_order number_compare (MNode 2 ''b'' (MNode 1 ''a'' MNull MNull RED 1) MNull BLACK 1) \<and>
   map_createSnapshot (MNode (2::int) ''b'' (MNode 1 ''a'' MNull MNull RED 1) MNull BLACK 1) =
     [(1, ''a''), (2, ''b'')] \<and>
   ordered number_compare
     (map fst (map_createSnapshot (MNode 2 ''b'' (MNode 1 ''a'' MNull MNull RED 1) MNull BLACK 1))) \<and>
   SortedMap_drain
     [\<lparr>m_root = MNode 2 ''b'' (MNode 1 ''a'' MNull MNull RED 1) MNull BLACK 1,
       m_compareFn = number_compare\<rparr>,
      \<lparr>m_root = MNull, m_compareFn = number_compare\<rparr>,
      \<lparr>m_root = MNode 7 ''z'' MNull MNull BLACK 1, m_compareFn = number_compare\<rparr>] Suspended =
     [(1, ''a''), (2, ''b'')]"
proof -
  let ?st = "Node (2::int) (Node 1 Null Null RED 1) Null BLACK 1"
  let ?s = "\<lparr>s_root = ?st, s_compareFn = number_compare\<rparr>"
  let ?after = "[\<lparr>s_root = Null, s_compareFn = number_compare\<rparr>,
           \<lparr>s_root = Node (7::int) Null Null BLACK 1, s_compareFn = number_compare\<rparr>]"
  let ?t = "MNode (2::int) ''b'' (MNode 1 ''a'' MNull MNull RED 1) MNull BLACK 1"
  let ?m = "\<lparr>m_root = ?t, m_compareFn = number_compare\<rparr>"
  let ?later = "[\<lparr>m_root = MNull, m_compareFn = number_compare\<rparr>,
           \<lparr>m_root = MNode (7::int) ''z'' MNull MNull BLACK 1, m_compareFn = number_compare\<rparr>]"
  have v: "valid_compareFn number_compare" by (rule valid_number_compare)
  have r: "SortedSet_run (SortedSet_new number_compare) [Call_add 1, Call_add 2] = Inr ?s"
    by (simp add: SortedSet_add_def SortedSet_new_def number_compare_def balance.simps)
  have bs: "bst_order number_compare ?st" by (simp add: number_compare_def)
  have b: "map_bst_order number_compare ?t" by (simp add: number_compare_def)
  have hs: "valid_compareFn (s_compareFn ?s) \<and> bst_order (s_compareFn ?s) (s_root ?s)"
    using v bs by simp
  have hm: "valid_compareFn (m_compareFn ?m) \<and> map_bst_order (m_compareFn ?m) (m_root ?m)"
    using v b by simp
  have ss: "createSnapshot ?st = [1, 2]" by (simp add: createSnapshot_def)
  have s: "map_createSnapshot ?t = [(1, ''a''), (2, ''b'')]" by (simp add: map_createSnapshot_def)
  note T = snapshot_in_order_and_fixed[of ?s ?after ?m ?later]
  from T have "SortedSet_drain (?s # ?after) Suspended =
      take (Suc (length ?after)) (createSnapshot (s_root ?s))" by (rule conjunct2[THEN conjunct1])
  then have ds: "SortedSet_drain (?s # ?after) Suspended = [1, 2]"
    using ss by (simp del: SortedSet_drain.simps)
  from T have "valid_compareFn (s_compareFn ?s) \<and> bst_order (s_compareFn ?s) (s_root ?s) \<longrightarrow>
      ordered (s_compareFn ?s) (createSnapshot (s_root ?s))"
    by (rule conjunct2[THEN conjunct2, THEN conjunct1])
  with hs have os: "ordered number_compare (createSnapshot ?st)" by simp
  from T have "SortedMap_drain (?m # ?later) Suspended =
      take (Suc (length ?later)) (map_createSnapshot (m_root ?m))"
    by (rule conjunct2[THEN conjunct2, THEN conjunct2, THEN conjunct2, THEN conjunct1])
  then have d: "SortedMap_drain (?m # ?later) Suspended = [(1, ''a''), (2, ''b'')]"
    using s by (simp del: SortedMap_drain.simps)
  from T have "valid_compareFn (m_compareFn ?m) \<and> map_bst_order (m_compareFn ?m) (m_root ?m) \<longrightarrow>
      ordered (m_compareFn ?m) (map fst (map_createSnapshot (m_root ?m)))"
    by (rule conjunct2[THEN conjunct2, THEN conjunct2, THEN conjunct2, THEN conjunct2])
  with hm have om: "ordered number_compare (map fst (map_createSnapshot ?t))" by simp
  from v r bs ss os ds b s om d show ?thesis by (intro conjI)
qed


end
